theory Spec2Isabelle
  imports Complex_Main
begin

section \<open>Text as the importer sees it\<close>

text \<open>
  Every table of a bundle is decoded with \<^verbatim>\<open>bytes.decode('cp1252', errors='replace')\<close>.
  A character of decoded text is represented by the cp1252 byte it was decoded from
  (\<open>CHR 0xC0\<close> is the capital A with grave accent, \<open>CHR 0xE9\<close> the small e with acute
  accent, \<open>CHR 0xA0\<close> the no-break space). The five bytes cp1252 leaves undefined
  (81, 8D, 8F, 90, 9D) all decode to the replacement character; they carry no
  whitespace, digit or case property, here as in Python.
\<close>

type_synonym row = "string list"

datatype exn = ValueError | IndexError | DatabaseError | RuntimeError | RequestException | OSError | CommandError

definition bind_exn :: "exn + 'a \<Rightarrow> ('a \<Rightarrow> exn + 'b) \<Rightarrow> exn + 'b" where
  "bind_exn m f = (case m of Inl e \<Rightarrow> Inl e | Inr x \<Rightarrow> f x)"

text \<open>\<^verbatim>\<open>str.isspace\<close> on one decoded character: TAB, LF, VT, FF, CR, the four
  separators 1C..1F, the space and the no-break space.\<close>

definition isspace :: "char \<Rightarrow> bool" where
  "isspace c \<longleftrightarrow> c \<in> set [CHR 0x09, CHR 0x0A, CHR 0x0B, CHR 0x0C, CHR 0x0D,
                          CHR 0x1C, CHR 0x1D, CHR 0x1E, CHR 0x1F, CHR 0x20, CHR 0xA0]"

definition strip_where :: "(char \<Rightarrow> bool) \<Rightarrow> string \<Rightarrow> string" where
  "strip_where p s = rev (dropWhile p (rev (dropWhile p s)))"

text \<open>\<^verbatim>\<open>s.strip()\<close> and \<^verbatim>\<open>s.strip('"')\<close>.\<close>

definition strip :: "string \<Rightarrow> string" where
  "strip s = strip_where isspace s"

definition strip_quotes :: "string \<Rightarrow> string" where
  "strip_quotes s = strip_where (\<lambda>c. c = CHR 0x22) s"

text \<open>\<^verbatim>\<open>def clean(s): return s.strip().strip('"') if isinstance(s, str) else s\<close>;
  every field of a csv row is a \<^verbatim>\<open>str\<close>.\<close>

definition clean :: "string \<Rightarrow> string" where
  "clean s = strip_quotes (strip s)"

definition ascii_digit :: "char \<Rightarrow> bool" where
  "ascii_digit c \<longleftrightarrow> c \<in> set ''0123456789''"

text \<open>\<^verbatim>\<open>str.isdigit\<close>: non-empty and every character has the Unicode digit property.
  Among decoded characters these are the ASCII digits and the superscripts
  two (B2), three (B3) and one (B9).\<close>

definition isdigit :: "string \<Rightarrow> bool" where
  "isdigit s \<longleftrightarrow> s \<noteq> [] \<and> list_all (\<lambda>c. ascii_digit c \<or> c \<in> set [CHR 0xB2, CHR 0xB3, CHR 0xB9]) s"

definition digit_value :: "char \<Rightarrow> int" where
  "digit_value c = int (of_char c) - 48"

definition decimal_value :: "string \<Rightarrow> int" where
  "decimal_value ds = foldl (\<lambda>a c. 10 * a + digit_value c) 0 ds"

fun double_underscore :: "string \<Rightarrow> bool" where
  "double_underscore (a # b # cs) = ((a = CHR ''_'' \<and> b = CHR ''_'') \<or> double_underscore (b # cs))"
| "double_underscore _ = False"

text \<open>
  \<^verbatim>\<open>int(s)\<close> for a string: surrounding whitespace is dropped (the no-break space
  counts, the separators 1C..1F do not), one sign is allowed, then decimal digits
  that single underscores may separate. Anything else raises ValueError; so does a
  numeral of more than 4300 digits (the interpreter's default limit).
\<close>

definition int_space :: "char \<Rightarrow> bool" where
  "int_space c \<longleftrightarrow> c \<in> set [CHR 0x09, CHR 0x0A, CHR 0x0B, CHR 0x0C, CHR 0x0D, CHR 0x20, CHR 0xA0]"

definition py_int :: "string \<Rightarrow> exn + int" where
  "py_int s =
     (let t = strip_where int_space s;
          neg = (t \<noteq> [] \<and> hd t = CHR ''-'');
          u = (if t \<noteq> [] \<and> (hd t = CHR ''-'' \<or> hd t = CHR ''+'') then tl t else t);
          ds = filter (\<lambda>c. c \<noteq> CHR ''_'') u
      in if u = [] \<or> hd u = CHR ''_'' \<or> last u = CHR ''_'' \<or> double_underscore u
            \<or> \<not> list_all ascii_digit ds \<or> length ds > 4300
         then Inl ValueError
         else Inr (if neg then - decimal_value ds else decimal_value ds))"

text \<open>\<^verbatim>\<open>int(s or d)\<close>: the default when the string is empty.\<close>

definition py_int_or :: "string \<Rightarrow> int \<Rightarrow> exn + int" where
  "py_int_or s d = (if s = [] then Inr d else py_int s)"

text \<open>\<^verbatim>\<open>r[i]\<close> for \<open>i \<ge> 0\<close>, and \<^verbatim>\<open>r[-1]\<close>.\<close>

definition py_index :: "'a list \<Rightarrow> nat \<Rightarrow> exn + 'a" where
  "py_index xs i = (if i < length xs then Inr (xs ! i) else Inl IndexError)"

definition py_last :: "'a list \<Rightarrow> exn + 'a" where
  "py_last xs = (if xs = [] then Inl IndexError else Inr (last xs))"

text \<open>\<^verbatim>\<open>sep.join(parts)\<close>.\<close>

fun py_join :: "string \<Rightarrow> string list \<Rightarrow> string" where
  "py_join sep [] = []"
| "py_join sep [x] = x"
| "py_join sep (x # y # ys) = x @ sep @ py_join sep (y # ys)"

definition startswith :: "string \<Rightarrow> string \<Rightarrow> bool" where
  "startswith s p \<longleftrightarrow> take (length p) s = p"

text \<open>
  \<^verbatim>\<open>sorted(xs, key=f)\<close> and \<^verbatim>\<open>xs.sort(key=f)\<close>: every key is computed first, and a key
  that raises aborts the sort with the list as it was; otherwise the sort is stable and
  ascending.
\<close>

fun decorate :: "('a \<Rightarrow> exn + int) \<Rightarrow> 'a list \<Rightarrow> exn + (int \<times> 'a) list" where
  "decorate f [] = Inr []"
| "decorate f (x # xs) =
     (case f x of Inl e \<Rightarrow> Inl e
      | Inr k \<Rightarrow> (case decorate f xs of Inl e \<Rightarrow> Inl e | Inr ks \<Rightarrow> Inr ((k, x) # ks)))"

definition py_sorted :: "('a \<Rightarrow> exn + int) \<Rightarrow> 'a list \<Rightarrow> exn + 'a list" where
  "py_sorted f xs = (case decorate f xs of Inl e \<Rightarrow> Inl e | Inr ks \<Rightarrow> Inr (map snd (sort_key fst ks)))"

section \<open>The regular expressions of the importer\<close>

text \<open>
  The patterns of the source are sequences of single-character atoms under
  quantifiers, with at most one group; they are matched the way \<^verbatim>\<open>re\<close> does, by
  backtracking: a greedy quantifier takes as much as it can and gives back one
  character at a time, a lazy one takes as little as it can.
\<close>

text \<open>\<^verbatim>\<open>str.lower\<close> on one decoded character (cp1252: the Latin-1 capitals, and the
  capitals S and Z with caron, OE and Y with diaeresis).\<close>

definition py_lower :: "char \<Rightarrow> char" where
  "py_lower c =
     (let n = (of_char c :: nat) in
      if (65 \<le> n \<and> n \<le> 90) \<or> (192 \<le> n \<and> n \<le> 222 \<and> n \<noteq> 215) then char_of (n + 32)
      else if n = 138 \<or> n = 140 \<or> n = 142 then char_of (n + 16)
      else if n = 159 then char_of (255::nat)
      else c)"

datatype atom =
    Lit char            \<comment> \<open>a literal character\<close>
  | LitI char           \<comment> \<open>a literal character under \<^verbatim>\<open>re.I\<close>\<close>
  | Dot                 \<comment> \<open>\<^verbatim>\<open>.\<close> without \<^verbatim>\<open>re.S\<close>: anything but a newline\<close>
  | DotAll              \<comment> \<open>\<^verbatim>\<open>.\<close> under \<^verbatim>\<open>re.S\<close>\<close>
  | Ws                  \<comment> \<open>\<^verbatim>\<open>\s\<close>\<close>
  | OneOf string        \<comment> \<open>a character class \<^verbatim>\<open>[...]\<close>\<close>

datatype item =
    One atom            \<comment> \<open>the atom once\<close>
  | Star atom           \<comment> \<open>\<^verbatim>\<open>*\<close>, greedy\<close>
  | StarLazy atom       \<comment> \<open>\<^verbatim>\<open>*?\<close>\<close>
  | Opt atom            \<comment> \<open>\<^verbatim>\<open>?\<close>, greedy\<close>
  | GroupOpen           \<comment> \<open>\<^verbatim>\<open>(\<close>\<close>
  | GroupClose          \<comment> \<open>\<^verbatim>\<open>)\<close>\<close>
  | Dollar              \<comment> \<open>\<^verbatim>\<open>$\<close> without \<^verbatim>\<open>re.M\<close>: the end, or just before a final newline\<close>

fun atom_ok :: "atom \<Rightarrow> char \<Rightarrow> bool" where
  "atom_ok (Lit a) c = (c = a)"
| "atom_ok (LitI a) c = (py_lower c = py_lower a)"
| "atom_ok Dot c = (c \<noteq> CHR 0x0A)"
| "atom_ok DotAll c = True"
| "atom_ok Ws c = isspace c"
| "atom_ok (OneOf cs) c = (c \<in> set cs)"

text \<open>
  \<open>re_match its s p g\<close> matches the items at the head of \<open>s\<close>, which starts at offset
  \<open>p\<close> of the text; \<open>g\<close> is the span of the group so far. The result is the offset
  where the match ends, with the span of the group.
\<close>

fun re_match :: "item list \<Rightarrow> string \<Rightarrow> nat \<Rightarrow> nat \<times> nat \<Rightarrow> (nat \<times> nat \<times> nat) option" where
  "re_match [] s p g = Some (p, g)"
| "re_match (One a # its) [] p g = None"
| "re_match (One a # its) (c # cs) p g = (if atom_ok a c then re_match its cs (Suc p) g else None)"
| "re_match (Star a # its) [] p g = re_match its [] p g"
| "re_match (Star a # its) (c # cs) p g =
     (if atom_ok a c then
        (case re_match (Star a # its) cs (Suc p) g of
           Some r \<Rightarrow> Some r
         | None \<Rightarrow> re_match its (c # cs) p g)
      else re_match its (c # cs) p g)"
| "re_match (StarLazy a # its) [] p g = re_match its [] p g"
| "re_match (StarLazy a # its) (c # cs) p g =
     (case re_match its (c # cs) p g of
        Some r \<Rightarrow> Some r
      | None \<Rightarrow> (if atom_ok a c then re_match (StarLazy a # its) cs (Suc p) g else None))"
| "re_match (Opt a # its) [] p g = re_match its [] p g"
| "re_match (Opt a # its) (c # cs) p g =
     (if atom_ok a c then
        (case re_match its cs (Suc p) g of
           Some r \<Rightarrow> Some r
         | None \<Rightarrow> re_match its (c # cs) p g)
      else re_match its (c # cs) p g)"
| "re_match (GroupOpen # its) s p g = re_match its s p (p, snd g)"
| "re_match (GroupClose # its) s p g = re_match its s p (fst g, p)"
| "re_match (Dollar # its) s p g = (if s = [] \<or> s = [CHR 0x0A] then re_match its s p g else None)"

text \<open>\<^verbatim>\<open>re.search\<close>: the leftmost start at which the pattern matches; the result is
  the text of group 1.\<close>

fun re_search_from :: "item list \<Rightarrow> string \<Rightarrow> nat \<Rightarrow> (nat \<times> nat) option" where
  "re_search_from its [] p = (case re_match its [] p (p, p) of Some (e, g) \<Rightarrow> Some g | None \<Rightarrow> None)"
| "re_search_from its (c # cs) p =
     (case re_match its (c # cs) p (p, p) of
        Some (e, g) \<Rightarrow> Some g
      | None \<Rightarrow> re_search_from its cs (Suc p))"

definition re_search_group :: "item list \<Rightarrow> string \<Rightarrow> string option" where
  "re_search_group its s =
     (case re_search_from its s 0 of
        None \<Rightarrow> None
      | Some (a, b) \<Rightarrow> Some (take (b - a) (drop a s)))"

text \<open>
  \<^verbatim>\<open>re.sub\<close> and \<^verbatim>\<open>re.split\<close> scan from the left and continue after each match; \<open>k\<close>
  counts the characters of the current match still to skip. Every pattern they are
  used with begins with a literal, so a match is never empty.
\<close>

fun re_sub_from :: "item list \<Rightarrow> string \<Rightarrow> string \<Rightarrow> nat \<Rightarrow> string" where
  "re_sub_from its repl [] k = []"
| "re_sub_from its repl (c # cs) (Suc k) = re_sub_from its repl cs k"
| "re_sub_from its repl (c # cs) 0 =
     (case re_match its (c # cs) 0 (0, 0) of
        Some (Suc e, g) \<Rightarrow> repl @ re_sub_from its repl cs e
      | _ \<Rightarrow> c # re_sub_from its repl cs 0)"

definition re_sub :: "item list \<Rightarrow> string \<Rightarrow> string \<Rightarrow> string" where
  "re_sub its repl s = re_sub_from its repl s 0"

fun re_split_from :: "item list \<Rightarrow> string \<Rightarrow> nat \<Rightarrow> string \<Rightarrow> string list" where
  "re_split_from its [] k cur = [rev cur]"
| "re_split_from its (c # cs) (Suc k) cur = re_split_from its cs k cur"
| "re_split_from its (c # cs) 0 cur =
     (case re_match its (c # cs) 0 (0, 0) of
        Some (Suc e, g) \<Rightarrow> rev cur # re_split_from its cs e []
      | _ \<Rightarrow> re_split_from its cs 0 (c # cur))"

definition re_split :: "item list \<Rightarrow> string \<Rightarrow> string list" where
  "re_split its s = re_split_from its s 0 []"

section \<open>Code tables\<close>

text \<open>The two dictionaries \<^verbatim>\<open>CAT_LABEL\<close> and \<^verbatim>\<open>VAL_LABEL\<close>, in the order of the source.\<close>

definition CAT_LABEL :: "(string \<times> string) list" where
  "CAT_LABEL =
    [(''ALLE'', ''All'' @ [CHR 0xE9] @ ''e''),
     (''CHAU'', ''Mode de chauffage''),
     (''EAU'', ''Approvisionnement en eau''),
     (''ENER'', [CHR 0xC9] @ ''nergie pour chauffage''),
     (''FENE'', ''Fenestration''),
     (''FOND'', ''Fondation''),
     (''PARE'', ''Rev'' @ [CHR 0xEA] @ ''tement ext'' @ [CHR 0xE9] @ ''rieur''),
     (''SS'', ''Sous-sol''),
     (''SYEG'', ''Syst'' @ [CHR 0xE8] @ ''me d'' @ [CHR 0x27, CHR 0xE9] @ ''gout''),
     (''TFEN'', ''Type de fenestration''),
     (''VUE'', ''Vue''),
     (''ZONG'', ''Zonage''),
     (''PROX'', ''Proximit'' @ [CHR 0xE9])]"

definition VAL_LABEL :: "(string \<times> string) list" where
  "VAL_LABEL =
    [(''NPAV'', ''Non pav'' @ [CHR 0xE9]),
     (''PELC'', ''Plinthes '' @ [CHR 0xE9] @ ''lectriques''),
     (''AMU'', ''Municipal''),
     (''ELEC'', [CHR 0xC9] @ ''lectricit'' @ [CHR 0xE9]),
     (''BOIS'', ''BOIS''),
     (''PVC'', ''PVC''),
     (''BETO'', ''B'' @ [CHR 0xE9] @ ''ton''),
     (''AU'', ''Autre''),
     (''VSAN'', ''Vide sanitaire''),
     (''EGMU'', [CHR 0xC9] @ ''gout municipal''),
     (''COUL'', ''COUL''),
     (''PFEN'', ''PFEN''),
     (''EAU'', ''Vue sur l'' @ [CHR 0x27] @ ''eau''),
     (''RES'', ''R'' @ [CHR 0xE9] @ ''sidentiel''),
     (''AUTO'', ''Autoroute''),
     (''PCYC'', ''Piste cyclable''),
     (''PRIM'', [CHR 0xC9] @ ''cole primaire''),
     (''SEC'', [CHR 0xC9] @ ''cole secondaire''),
     (''TRSP'', ''Transport en commun'')]"

text \<open>\<^verbatim>\<open>d.get(k, k)\<close>: an unknown code passes through.\<close>

definition label_of :: "(string \<times> string) list \<Rightarrow> string \<Rightarrow> string" where
  "label_of d k = (case map_of d k of Some v \<Rightarrow> v | None \<Rightarrow> k)"

section \<open>Field extraction (core/management/commands/import\_centris.py)\<close>

fun extract_year :: "row \<Rightarrow> exn + int option" where
  "extract_year [] = Inr None"
| "extract_year (v # values) =
     (let vs = clean v in
      if vs \<noteq> [] \<and> isdigit vs \<and> length vs = 4 then
        (case py_int vs of
           Inl e \<Rightarrow> Inl e
         | Inr y \<Rightarrow> if 1800 \<le> y \<and> y \<le> 2035 then Inr (Some y) else extract_year values)
      else extract_year values)"

definition extract_address :: "row \<Rightarrow> string option" where
  "extract_address row =
     (let civic = (if length row > 25 then clean (row ! 25) else []);
          street = (if length row > 27 then clean (row ! 27) else []);
          postal = (if length row > 29 then clean (row ! 29) else []);
          parts = filter (\<lambda>p. p \<noteq> []) [civic, street, postal]
      in if parts \<noteq> [] then Some (py_join '', '' parts) else None)"

definition extract_price :: "row \<Rightarrow> exn + int option" where
  "extract_price row =
     (if length row > 6 \<and> isdigit (clean (row ! 6))
      then (case py_int (clean (row ! 6)) of Inl e \<Rightarrow> Inl e | Inr n \<Rightarrow> Inr (Some n))
      else Inr None)"

text \<open>The pattern \<^verbatim>\<open>r'<br\s*/?>'\<close> under \<^verbatim>\<open>re.I\<close>.\<close>

definition br_pattern :: "item list" where
  "br_pattern = [One (LitI CHR ''<''), One (LitI CHR ''b''), One (LitI CHR ''r''), Star Ws,
                 Opt (LitI CHR ''/''), One (LitI CHR ''>'')]"

text \<open>
  \<^verbatim>\<open>chosen = [r for r in remarques_rows if len(r) >= 7 and clean(r[2]) == 'F']\<close>, then
  \<^verbatim>\<open>chosen.sort(key=lambda r: int(clean(r[1]) or 0))\<close> inside \<^verbatim>\<open>try ... except: pass\<close>.
\<close>

definition chosen_remarques :: "row list \<Rightarrow> row list" where
  "chosen_remarques remarques_rows =
     filter (\<lambda>r. length r \<ge> 7 \<and> clean (r ! 2) = ''F'') remarques_rows"

definition remarque_key :: "row \<Rightarrow> exn + int" where
  "remarque_key r = bind_exn (py_index r 1) (\<lambda>f. py_int_or (clean f) 0)"

definition ordered_remarques :: "row list \<Rightarrow> row list" where
  "ordered_remarques remarques_rows =
     (let chosen = chosen_remarques remarques_rows in
      case py_sorted remarque_key chosen of Inl e \<Rightarrow> chosen | Inr sorted_rows \<Rightarrow> sorted_rows)"

definition extract_description :: "row list \<Rightarrow> string option" where
  "extract_description remarques_rows =
     (let chosen = ordered_remarques remarques_rows;
          text = py_join '' '' (filter (\<lambda>t. t \<noteq> []) (map (\<lambda>r. clean (last r)) chosen));
          text = re_sub br_pattern '' '' text
      in if strip text \<noteq> [] then Some (strip text) else None)"

text \<open>
  \<^verbatim>\<open>extract_addenda(z, ident)\<close>: the archive is represented by the rows of its entry
  ADDENDA.TXT, \<open>None\<close> when the archive has no such entry.
\<close>

definition extract_addenda :: "row list option \<Rightarrow> string \<Rightarrow> string option" where
  "extract_addenda addenda ident =
     (case addenda of
        None \<Rightarrow> None
      | Some reader \<Rightarrow>
          (let chunks = map (\<lambda>r. clean (last r))
                          (filter (\<lambda>r. r \<noteq> [] \<and> clean (hd r) = ident \<and> last r \<noteq> []) reader)
           in if chunks \<noteq> [] then Some (re_sub br_pattern '' '' (py_join '' '' chunks)) else None))"

text \<open>The patterns \<^verbatim>\<open>r'A\s*proximite\s*:?\s*(.+)$'\<close> under \<^verbatim>\<open>re.I | re.S\<close> (in the
  source its A carries a grave accent and its last e an acute one), \<^verbatim>\<open>r'[;,]\s*'\<close> and
  \<^verbatim>\<open>r'<.*?>'\<close>.\<close>

definition proximite_pattern :: "item list" where
  "proximite_pattern =
     [One (LitI (CHR 0xC0)), Star Ws] @
     map (\<lambda>c. One (LitI c)) (''proximit'' @ [CHR 0xE9]) @
     [Star Ws, Opt (LitI CHR '':''), Star Ws, GroupOpen, One DotAll, Star DotAll, GroupClose, Dollar]"

definition separator_pattern :: "item list" where
  "separator_pattern = [One (OneOf '';,''), Star Ws]"

definition tag_pattern :: "item list" where
  "tag_pattern = [One (Lit CHR ''<''), StarLazy Dot, One (Lit CHR ''>'')]"

text \<open>The loop \<^verbatim>\<open>for p in prox: if p and p not in seen: seen.add(p); out.append(p)\<close>.\<close>

fun unique_in_order :: "string list \<Rightarrow> string set \<Rightarrow> string list \<Rightarrow> string list" where
  "unique_in_order [] seen out = out"
| "unique_in_order (p # prox) seen out =
     (if p \<noteq> [] \<and> p \<notin> seen then unique_in_order prox (insert p seen) (out @ [p])
      else unique_in_order prox seen out)"

definition prox_from_rows :: "row list \<Rightarrow> string list" where
  "prox_from_rows carac_rows =
     map (\<lambda>r. label_of VAL_LABEL (clean (r ! 2)))
       (filter (\<lambda>r. length r \<ge> 3 \<and> clean (r ! 1) = ''PROX'') carac_rows)"

definition prox_from_addenda :: "string \<Rightarrow> string list" where
  "prox_from_addenda addenda_text =
     (case re_search_group proximite_pattern addenda_text of
        None \<Rightarrow> []
      | Some seg \<Rightarrow>
          filter (\<lambda>item. item \<noteq> [])
            (map (\<lambda>item. strip (re_sub tag_pattern [] item)) (re_split separator_pattern seg)))"

definition extract_proximites :: "string \<Rightarrow> row list \<Rightarrow> string \<times> string list" where
  "extract_proximites addenda_text carac_rows =
     (let prox = prox_from_rows carac_rows;
          prox = (if prox = [] \<and> addenda_text \<noteq> [] then prox @ prox_from_addenda addenda_text else prox);
          out = unique_in_order prox {} []
      in (if out \<noteq> [] then py_join '', '' out else [], out))"

text \<open>\<^verbatim>\<open>seq_i = int(seq) if (seq and seq.isdigit()) else 0\<close> inside \<^verbatim>\<open>try ... except: seq_i = 0\<close>.\<close>

definition photo_sequence :: "string \<Rightarrow> int" where
  "photo_sequence seq =
     (if seq \<noteq> [] \<and> isdigit seq then (case py_int seq of Inl e \<Rightarrow> 0 | Inr n \<Rightarrow> n) else 0)"

definition photo_pairs :: "row list \<Rightarrow> (int \<times> string) list" where
  "photo_pairs photo_rows =
     map (\<lambda>r. (photo_sequence (clean (r ! 1)), clean (r ! 6)))
       (filter (\<lambda>r. length r \<ge> 7 \<and> clean (r ! 6) \<noteq> [] \<and> startswith (clean (r ! 6)) ''http'')
          photo_rows)"

text \<open>\<^verbatim>\<open>res.sort(key=lambda t: t[0])\<close>, on the pairs collected.\<close>

definition extract_photos :: "row list \<Rightarrow> (int \<times> string) list" where
  "extract_photos photo_rows = sort_key fst (photo_pairs photo_rows)"

text \<open>
  \<^verbatim>\<open>extract_units\<close>. The \<^verbatim>\<open>try\<close> covers \<^verbatim>\<open>sorted(units_rows, key=lambda r: int(clean(r[1]) or 999))\<close>
  and the search for the row whose sequence is \<^verbatim>\<open>'1'\<close>; the \<^verbatim>\<open>except\<close> takes the first row.
\<close>

definition unit_key :: "row \<Rightarrow> exn + int" where
  "unit_key r = bind_exn (py_index r 1) (\<lambda>f. py_int_or (clean f) 999)"

definition principal_unit :: "row list \<Rightarrow> row option" where
  "principal_unit units_rows =
     (case py_sorted unit_key units_rows of
        Inr sorted_rows \<Rightarrow> find (\<lambda>r. clean (r ! 1) = ''1'') sorted_rows
      | Inl e \<Rightarrow> (case units_rows of [] \<Rightarrow> None | r # _ \<Rightarrow> Some r))"

definition int_if_digit :: "string \<Rightarrow> exn + int option" where
  "int_if_digit p =
     (if p \<noteq> [] \<and> isdigit p then (case py_int p of Inl e \<Rightarrow> Inl e | Inr n \<Rightarrow> Inr (Some n))
      else Inr None)"

definition count_sdb :: "row list \<Rightarrow> int option" where
  "count_sdb pieces_rows =
     (let n = length (filter (\<lambda>r. length r \<ge> 4 \<and> clean (r ! 1) = ''1'' \<and> clean (r ! 3) = ''SDB'') pieces_rows)
      in if n = 0 then None else Some (int n))"

definition extract_units :: "row list \<Rightarrow> row list \<Rightarrow> exn + (int option \<times> int option \<times> int option)" where
  "extract_units units_rows pieces_rows =
     (case principal_unit units_rows of
        Some principal_row \<Rightarrow>
          (if principal_row \<noteq> [] \<and> length principal_row \<ge> 5 then
             bind_exn (int_if_digit (clean (principal_row ! 3))) (\<lambda>pieces.
             bind_exn (int_if_digit (clean (principal_row ! 4))) (\<lambda>chambres.
             Inr (pieces, chambres, count_sdb pieces_rows)))
           else Inr (None, None, count_sdb pieces_rows))
      | None \<Rightarrow> Inr (None, None, count_sdb pieces_rows))"

text \<open>\<^verbatim>\<open>build_caracteristiques\<close>: one piece of text and one pair per row kept.\<close>

definition carac_piece :: "row \<Rightarrow> string \<times> (string \<times> string)" where
  "carac_piece r =
     (let cat = clean (r ! 1); val = clean (r ! 2);
          car_label = label_of CAT_LABEL cat;
          label = label_of VAL_LABEL val;
          extra = (if length r > 3 then clean (r ! 3) else []);
          suffix = (if extra \<noteq> [] then '' ('' @ extra @ '')'' else [])
      in (car_label @ '': '' @ label @ suffix, (car_label, label)))"

definition build_caracteristiques :: "row list \<Rightarrow> string \<times> (string \<times> string) list" where
  "build_caracteristiques carac_rows =
     (let kept = filter (\<lambda>r. \<not> length r < 3 \<and> clean (r ! 1) \<noteq> ''PROX'') carac_rows;
          descs = map (\<lambda>r. fst (carac_piece r)) kept;
          arr = map (\<lambda>r. snd (carac_piece r)) kept
      in (if descs \<noteq> [] then py_join '', '' descs else [], arr))"

section \<open>The catalog (core/models.py)\<close>

type_synonym timestamp = int
type_synonym date = int

definition STATUS_ACTIVE :: string where "STATUS_ACTIVE = ''ACTIVE''"
definition STATUS_SOLD :: string where "STATUS_SOLD = ''SOLD''"

text \<open>One row of \<^verbatim>\<open>Listing\<close>; \<open>centris_id\<close> is its primary key. The two decimal
  surfaces are kept in hundredths.\<close>

record listing =
  centris_id :: string
  slug :: string
  prix :: "int option"
  adresse :: string
  nombre_pieces :: "int option"
  nombre_chambres :: "int option"
  nombre_sdb :: "int option"
  superficie_habitable :: "int option"
  superficie_terrain :: "int option"
  annee_construction :: "int option"
  inclus :: string
  description :: string
  proximites_text :: string
  proximites :: "string list"
  caracteristiques_text :: string
  caracteristiques :: "(string \<times> string) list"
  status :: string
  sold_at :: "timestamp option"
  first_seen_at :: timestamp
  last_seen_at :: "timestamp option"
  updated_at :: timestamp

text \<open>One row of \<^verbatim>\<open>ListingPhoto\<close>: the listing it belongs to, its sequence, its URL.\<close>

record listing_photo =
  photo_listing :: string
  photo_sequence_no :: nat
  photo_url :: string

record fetch_log =
  created_at :: timestamp
  file_date :: "date option"
  source_url :: string
  source_name :: string
  items_total :: nat
  items_added :: nat
  items_updated :: nat
  items_marked_sold :: nat
  duration_seconds :: real

record catalog =
  listings :: "listing list"
  photos :: "listing_photo list"
  fetch_logs :: "fetch_log list"

text \<open>
  What the command does not control: whether the storage operation number \<open>n\<close> of a
  run raises, the clock the ORM reads for \<^verbatim>\<open>auto_now\<close> and \<^verbatim>\<open>auto_now_add\<close> at that
  operation, and Django's \<^verbatim>\<open>slugify\<close>.
\<close>

record store_env =
  op_fails :: "nat \<Rightarrow> bool"
  op_clock :: "nat \<Rightarrow> timestamp"
  slugify :: "string \<Rightarrow> string"

text \<open>The local variables of \<^verbatim>\<open>Command.handle\<close> inside the atomic block, with the
  catalog and the number of storage operations issued so far.\<close>

record run =
  db :: catalog
  tick :: nat
  n_total :: nat
  added :: nat
  updated :: nat
  seen_ids :: "string set"

definition storage_op :: "store_env \<Rightarrow> run \<Rightarrow> (timestamp \<Rightarrow> catalog \<Rightarrow> catalog) \<Rightarrow> exn + run" where
  "storage_op env st f =
     (if op_fails env (tick st) then Inl DatabaseError
      else Inr (st\<lparr>db := f (op_clock env (tick st)) (db st), tick := Suc (tick st)\<rparr>))"

text \<open>\<^verbatim>\<open>Listing.ensure_slug\<close>.\<close>

definition ensure_slug :: "store_env \<Rightarrow> listing \<Rightarrow> listing" where
  "ensure_slug env l =
     (if slug l = [] then l\<lparr>slug := take 64 (slugify env (''listing-'' @ centris_id l))\<rparr> else l)"

section \<open>The import (Command.handle, after the download)\<close>

record tables =
  rows_ins :: "row list"
  rows_rem :: "row list"
  rows_car :: "row list"
  rows_pho :: "row list"
  rows_uni :: "row list"
  rows_pie :: "row list"
  addenda :: "row list option"

text \<open>\<^verbatim>\<open>by_x = defaultdict(list); [by_x[clean(r[0])].append(r) for r in rows_x if r]\<close>, read
  with \<^verbatim>\<open>by_x.get(id_, [])\<close>.\<close>

definition by_id :: "row list \<Rightarrow> string \<Rightarrow> row list" where
  "by_id rows ident = filter (\<lambda>r. r \<noteq> [] \<and> clean (hd r) = ident) rows"

text \<open>The values the loop body computes for one row before it touches the catalog.\<close>

record extracted =
  x_prix :: "int option"
  x_adresse :: string
  x_annee :: "int option"
  x_descr :: string
  x_proximites_text :: string
  x_proximites_arr :: "string list"
  x_car_text :: string
  x_car_arr :: "(string \<times> string) list"
  x_pieces :: "int option"
  x_chambres :: "int option"
  x_sdb :: "int option"

definition or_empty :: "string option \<Rightarrow> string" where
  "or_empty v = (case v of None \<Rightarrow> [] | Some s \<Rightarrow> s)"

definition extract_row :: "tables \<Rightarrow> row \<Rightarrow> string \<Rightarrow> exn + extracted" where
  "extract_row tb row ident =
     bind_exn (extract_price row) (\<lambda>p.
     bind_exn (extract_year row) (\<lambda>annee.
     bind_exn (extract_units (by_id (rows_uni tb) ident) (by_id (rows_pie tb) ident)) (\<lambda>(n_pieces, n_chambres, n_sdb).
       let addenda_txt = or_empty (extract_addenda (addenda tb) ident);
           prox = extract_proximites addenda_txt (by_id (rows_car tb) ident);
           car = build_caracteristiques (by_id (rows_car tb) ident)
       in Inr \<lparr>x_prix = p,
                x_adresse = or_empty (extract_address row),
                x_annee = annee,
                x_descr = or_empty (extract_description (by_id (rows_rem tb) ident)),
                x_proximites_text = fst prox,
                x_proximites_arr = snd prox,
                x_car_text = fst car,
                x_car_arr = snd car,
                x_pieces = n_pieces,
                x_chambres = n_chambres,
                x_sdb = n_sdb\<rparr>)))"

text \<open>The row \<^verbatim>\<open>get_or_create\<close> inserts when the id is new (its \<^verbatim>\<open>defaults\<close>).\<close>

definition new_listing :: "string \<Rightarrow> extracted \<Rightarrow> timestamp \<Rightarrow> timestamp \<Rightarrow> listing" where
  "new_listing ident x now t =
     \<lparr>centris_id = ident,
      slug = ''listing-'' @ ident,
      prix = x_prix x,
      adresse = x_adresse x,
      nombre_pieces = x_pieces x,
      nombre_chambres = x_chambres x,
      nombre_sdb = x_sdb x,
      superficie_habitable = None,
      superficie_terrain = None,
      annee_construction = x_annee x,
      inclus = [],
      description = x_descr x,
      proximites_text = x_proximites_text x,
      proximites = x_proximites_arr x,
      caracteristiques_text = x_car_text x,
      caracteristiques = x_car_arr x,
      status = STATUS_ACTIVE,
      sold_at = None,
      first_seen_at = t,
      last_seen_at = Some now,
      updated_at = t\<rparr>"

text \<open>The assignments of the \<^verbatim>\<open>else\<close> branch, before \<^verbatim>\<open>obj.save()\<close>.\<close>

definition overwrite :: "listing \<Rightarrow> extracted \<Rightarrow> timestamp \<Rightarrow> listing" where
  "overwrite obj x now =
     obj\<lparr>prix := x_prix x,
         adresse := x_adresse x,
         nombre_pieces := x_pieces x,
         nombre_chambres := x_chambres x,
         nombre_sdb := x_sdb x,
         superficie_habitable := None,
         superficie_terrain := None,
         annee_construction := x_annee x,
         inclus := [],
         description := x_descr x,
         proximites_text := x_proximites_text x,
         proximites := x_proximites_arr x,
         caracteristiques_text := x_car_text x,
         caracteristiques := x_car_arr x,
         last_seen_at := Some now,
         status := STATUS_ACTIVE,
         sold_at := None\<rparr>"

text \<open>The storage operations of the loop body, on the catalog.\<close>

definition insert_listing :: "listing \<Rightarrow> catalog \<Rightarrow> catalog" where
  "insert_listing l c = c\<lparr>listings := listings c @ [l]\<rparr>"

definition save_slug :: "listing \<Rightarrow> catalog \<Rightarrow> catalog" where
  "save_slug obj c =
     c\<lparr>listings := map (\<lambda>l. if centris_id l = centris_id obj then l\<lparr>slug := slug obj\<rparr> else l) (listings c)\<rparr>"

definition save_listing :: "listing \<Rightarrow> catalog \<Rightarrow> catalog" where
  "save_listing obj c =
     c\<lparr>listings := map (\<lambda>l. if centris_id l = centris_id obj then obj else l) (listings c)\<rparr>"

definition delete_photos :: "string \<Rightarrow> catalog \<Rightarrow> catalog" where
  "delete_photos ident c = c\<lparr>photos := filter (\<lambda>ph. photo_listing ph \<noteq> ident) (photos c)\<rparr>"

text \<open>\<^verbatim>\<open>[ListingPhoto(listing=obj, sequence=(i + 1), url=u) for i, (_, u) in enumerate(photos)]\<close>.\<close>

definition numbered_photos :: "string \<Rightarrow> (int \<times> string) list \<Rightarrow> listing_photo list" where
  "numbered_photos ident phs =
     map (\<lambda>(i, (q, u)). \<lparr>photo_listing = ident, photo_sequence_no = i + 1, photo_url = u\<rparr>)
       (enumerate 0 phs)"

definition bulk_create :: "listing_photo list \<Rightarrow> catalog \<Rightarrow> catalog" where
  "bulk_create phs c = c\<lparr>photos := photos c @ phs\<rparr>"

text \<open>The upsert of one row: \<^verbatim>\<open>get_or_create\<close>, then the branch on \<^verbatim>\<open>created\<close>.\<close>

definition upsert :: "store_env \<Rightarrow> timestamp \<Rightarrow> string \<Rightarrow> extracted \<Rightarrow> run \<Rightarrow> exn + run" where
  "upsert env now ident x st =
     (case find (\<lambda>l. centris_id l = ident) (listings (db st)) of
        None \<Rightarrow>
          bind_exn (storage_op env st (\<lambda>t. insert_listing (new_listing ident x now t))) (\<lambda>st.
          bind_exn (storage_op env st (\<lambda>t. save_slug (ensure_slug env (new_listing ident x now t)))) (\<lambda>st.
          Inr (st\<lparr>added := added st + 1\<rparr>)))
      | Some obj \<Rightarrow>
          bind_exn (storage_op env st (\<lambda>t. id)) (\<lambda>st.
          bind_exn (storage_op env st
                      (\<lambda>t. save_listing ((ensure_slug env (overwrite obj x now))\<lparr>updated_at := t\<rparr>))) (\<lambda>st.
          Inr (st\<lparr>updated := updated st + 1\<rparr>))))"

definition replace_photos :: "store_env \<Rightarrow> string \<Rightarrow> (int \<times> string) list \<Rightarrow> run \<Rightarrow> exn + run" where
  "replace_photos env ident phs st =
     (if phs \<noteq> [] then
        bind_exn (storage_op env st (\<lambda>t. delete_photos ident)) (\<lambda>st.
        storage_op env st (\<lambda>t. bulk_create (numbered_photos ident phs)))
      else Inr st)"

text \<open>The body of \<^verbatim>\<open>for row in rows_ins\<close>.\<close>

definition process_row :: "store_env \<Rightarrow> tables \<Rightarrow> timestamp \<Rightarrow> row \<Rightarrow> run \<Rightarrow> exn + run" where
  "process_row env tb now row st =
     (if row = [] \<or> clean (hd row) = [] then Inr st
      else
        let ident = clean (hd row);
            st = st\<lparr>n_total := n_total st + 1, seen_ids := insert ident (seen_ids st)\<rparr>
        in bind_exn (extract_row tb row ident) (\<lambda>x.
           bind_exn (upsert env now ident x st) (\<lambda>st.
           replace_photos env ident (extract_photos (by_id (rows_pho tb) ident)) st)))"

fun process_rows :: "store_env \<Rightarrow> tables \<Rightarrow> timestamp \<Rightarrow> row list \<Rightarrow> run \<Rightarrow> exn + run" where
  "process_rows env tb now [] st = Inr st"
| "process_rows env tb now (row # rows) st =
     bind_exn (process_row env tb now row st) (process_rows env tb now rows)"

text \<open>\<^verbatim>\<open>Listing.objects.filter(status=ACTIVE).exclude(centris_id__in=seen_ids)\<close> and its
  \<^verbatim>\<open>update(status=SOLD, sold_at=now)\<close>, which returns the number of rows it matched.\<close>

definition sold_qs :: "string set \<Rightarrow> listing \<Rightarrow> bool" where
  "sold_qs seen l \<longleftrightarrow> status l = STATUS_ACTIVE \<and> centris_id l \<notin> seen"

definition mark_sold :: "string set \<Rightarrow> timestamp \<Rightarrow> catalog \<Rightarrow> catalog" where
  "mark_sold seen now c =
     c\<lparr>listings := map (\<lambda>l. if sold_qs seen l then l\<lparr>status := STATUS_SOLD, sold_at := Some now\<rparr> else l)
                      (listings c)\<rparr>"

text \<open>What the run knows besides the tables: the resolved file, the run's timestamp
  \<^verbatim>\<open>now\<close>, the flag, and the elapsed time read when the log is written.\<close>

record run_info =
  base_url :: string
  run_source_name :: string
  run_file_date :: "date option"
  run_now :: timestamp
  do_mark_sold :: bool
  duration :: real

definition write_log :: "run_info \<Rightarrow> nat \<Rightarrow> nat \<Rightarrow> nat \<Rightarrow> nat \<Rightarrow> timestamp \<Rightarrow> catalog \<Rightarrow> catalog" where
  "write_log info n_rows n_added n_updated n_sold t c =
     c\<lparr>fetch_logs := fetch_logs c @
        [\<lparr>created_at = t,
          file_date = run_file_date info,
          source_url = base_url info,
          source_name = run_source_name info,
          items_total = n_rows,
          items_added = n_added,
          items_updated = n_updated,
          items_marked_sold = n_sold,
          duration_seconds = duration info\<rparr>]\<rparr>"

text \<open>The block under \<^verbatim>\<open>with transaction.atomic():\<close>; its value is the state at the end
  and the number of listings marked sold.\<close>

definition atomic_body :: "store_env \<Rightarrow> tables \<Rightarrow> run_info \<Rightarrow> catalog \<Rightarrow> exn + (run \<times> nat)" where
  "atomic_body env tb info c =
     bind_exn (process_rows env tb (run_now info) (rows_ins tb)
                 \<lparr>db = c, tick = 0, n_total = 0, added = 0, updated = 0, seen_ids = {}\<rparr>) (\<lambda>st.
     bind_exn (if do_mark_sold info
               then bind_exn (storage_op env st (\<lambda>t. mark_sold (seen_ids st) (run_now info))) (\<lambda>st'.
                      Inr (st', length (filter (sold_qs (seen_ids st)) (listings (db st)))))
               else Inr (st, 0)) (\<lambda>(st, marked_sold).
     bind_exn (storage_op env st (write_log info (n_total st) (added st) (updated st) marked_sold)) (\<lambda>st.
     Inr (st, marked_sold))))"

text \<open>\<^verbatim>\<open>transaction.atomic()\<close>: the block's writes are kept when it returns and undone
  when it raises; the exception goes on to the caller.\<close>

definition atomic :: "(catalog \<Rightarrow> exn + (run \<times> 'a)) \<Rightarrow> catalog \<Rightarrow> (exn + (run \<times> 'a)) \<times> catalog" where
  "atomic body c = (case body c of Inl e \<Rightarrow> (Inl e, c) | Inr (st, r) \<Rightarrow> (Inr (st, r), db st))"

text \<open>The import of one decoded bundle: the outcome (the totals of the final message,
  or the exception) and the catalog afterwards.\<close>

record totals =
  t_total :: nat
  t_added :: nat
  t_updated :: nat
  t_sold :: nat

definition import_tables :: "store_env \<Rightarrow> tables \<Rightarrow> run_info \<Rightarrow> catalog \<Rightarrow> (exn + totals) \<times> catalog" where
  "import_tables env tb info c =
     (case atomic (atomic_body env tb info) c of
        (Inl e, c') \<Rightarrow> (Inl e, c')
      | (Inr (st, marked_sold), c') \<Rightarrow>
          (Inr \<lparr>t_total = n_total st, t_added = added st, t_updated = updated st, t_sold = marked_sold\<rparr>, c'))"

section \<open>Discovery and download\<close>

text \<open>
  The network as one attempt sees it. \<open>index_dates\<close> is the outcome of the GET of the
  index page and of the scan for \<^verbatim>\<open>NOMADESMARKETING(\d{8})\.zip\<close>: the exception raised,
  or the dates of the matched names that \<^verbatim>\<open>strptime\<close> accepts, in order of appearance.
  \<open>head_ok\<close> says whether a HEAD request answers 200, \<open>get_body\<close> is the outcome of the
  streamed GET, \<open>save_raises\<close> whether writing the archive to the save directory
  raises. A date is its ordinal; \<open>ymd\<close> stands for \<^verbatim>\<open>d.strftime('%Y%m%d')\<close>.
\<close>

type_synonym bytes = string

record network =
  index_dates :: "exn + date list"
  head_ok :: "string \<Rightarrow> bool"
  get_body :: "string \<Rightarrow> exn + bytes"
  save_raises :: bool

datatype event = GetIndex string | Head string | Download string | SaveFile string | Sleep int

definition list_zip_dates_from_index :: "network \<Rightarrow> exn + date list" where
  "list_zip_dates_from_index net =
     (case index_dates net of Inl e \<Rightarrow> Inl e | Inr ds \<Rightarrow> Inr (sort (remdups ds)))"

definition compose_url_for_date :: "(date \<Rightarrow> string) \<Rightarrow> string \<Rightarrow> date \<Rightarrow> string" where
  "compose_url_for_date ymd base d =
     rev (dropWhile (\<lambda>c. c = CHR ''/'') (rev base)) @ ''/NOMADESMARKETING'' @ ymd d @ ''.zip''"

text \<open>\<^verbatim>\<open>max\<close> of a sequence raises ValueError when the sequence is empty.\<close>

fun py_max :: "int list \<Rightarrow> exn + int" where
  "py_max [] = Inl ValueError"
| "py_max (x # xs) = Inr (fold max xs x)"

text \<open>The \<^verbatim>\<open>try\<close> block of \<^verbatim>\<open>find_latest_available\<close>: the date it returns with, or \<open>None\<close>
  when it raises or when the index gives no date.\<close>

definition best_from_index :: "network \<Rightarrow> date \<Rightarrow> date option" where
  "best_from_index net today =
     (case list_zip_dates_from_index net of
        Inl e \<Rightarrow> None
      | Inr dates \<Rightarrow>
          if dates \<noteq> [] then
            (case (if list_ex (\<lambda>d. d \<le> today) dates
                   then py_max (filter (\<lambda>d. d \<le> today) dates)
                   else py_max dates) of
               Inl e \<Rightarrow> None
             | Inr best \<Rightarrow> Some best)
          else None)"

text \<open>\<^verbatim>\<open>for delta in range(0, 3)\<close>, then \<^verbatim>\<open>raise RuntimeError\<close>.\<close>

fun probe :: "network \<Rightarrow> (date \<Rightarrow> string) \<Rightarrow> string \<Rightarrow> date \<Rightarrow> nat list
              \<Rightarrow> (exn + string \<times> date) \<times> event list" where
  "probe net ymd base today [] = (Inl RuntimeError, [])"
| "probe net ymd base today (delta # deltas) =
     (let d = today - int delta; url = compose_url_for_date ymd base d in
      if head_ok net url then (Inr (url, d), [Head url])
      else (case probe net ymd base today deltas of (r, evs) \<Rightarrow> (r, Head url # evs)))"

definition find_latest_available :: "network \<Rightarrow> (date \<Rightarrow> string) \<Rightarrow> string \<Rightarrow> date
              \<Rightarrow> (exn + string \<times> date) \<times> event list" where
  "find_latest_available net ymd base today =
     (case best_from_index net today of
        Some best \<Rightarrow> (Inr (compose_url_for_date ymd base best, best), [GetIndex base])
      | None \<Rightarrow> (case probe net ymd base today [0, 1, 2] of (r, evs) \<Rightarrow> (r, GetIndex base # evs)))"

text \<open>The variables the fetch loop of \<^verbatim>\<open>Command.handle\<close> leaves behind.\<close>

record fetched =
  data_bytes :: "bytes option"
  got_source_name :: string
  got_file_date :: "date option"
  last_err :: "exn option"

record options =
  opt_base_url :: string
  opt_retries :: nat
  opt_retry_seconds :: int
  opt_save_zip_dir :: string
  opt_no_mark_sold :: bool

text \<open>\<^verbatim>\<open>url.rsplit("/", 1)[-1]\<close>.\<close>

definition last_segment :: "string \<Rightarrow> string" where
  "last_segment u = rev (takeWhile (\<lambda>c. c \<noteq> CHR ''/'') (rev u))"

text \<open>One pass of the \<^verbatim>\<open>try\<close> block of the fetch loop: the variables afterwards, whether
  it ended by \<^verbatim>\<open>break\<close>, and the requests it made.\<close>

definition fetch_attempt :: "network \<Rightarrow> (date \<Rightarrow> string) \<Rightarrow> options \<Rightarrow> date \<Rightarrow> fetched
              \<Rightarrow> fetched \<times> bool \<times> event list" where
  "fetch_attempt net ymd opts today f =
     (case find_latest_available net ymd (opt_base_url opts) today of
        (Inl e, evs) \<Rightarrow> (f\<lparr>last_err := Some e\<rparr>, False, evs)
      | (Inr (url, d), evs) \<Rightarrow>
          (let f = f\<lparr>got_file_date := Some d, got_source_name := last_segment url\<rparr> in
           case get_body net url of
             Inl e \<Rightarrow> (f\<lparr>last_err := Some e\<rparr>, False, evs @ [Download url])
           | Inr b \<Rightarrow>
               (let f = f\<lparr>data_bytes := Some b\<rparr> in
                if opt_save_zip_dir opts \<noteq> [] then
                  (if save_raises net
                   then (f\<lparr>last_err := Some OSError\<rparr>, False,
                         evs @ [Download url, SaveFile (got_source_name f)])
                   else (f, True, evs @ [Download url, SaveFile (got_source_name f)]))
                else (f, True, evs @ [Download url]))))"

text \<open>\<^verbatim>\<open>for attempt in range(1, retries + 1)\<close>: \<open>k\<close> attempts are left, \<open>attempt\<close> is the
  number of the next one, and the network may differ from one attempt to the next.\<close>

fun fetch_loop :: "(nat \<Rightarrow> network) \<Rightarrow> (date \<Rightarrow> string) \<Rightarrow> options \<Rightarrow> date \<Rightarrow> nat \<Rightarrow> nat \<Rightarrow> fetched
              \<Rightarrow> fetched \<times> event list" where
  "fetch_loop nets ymd opts today attempt 0 f = (f, [])"
| "fetch_loop nets ymd opts today attempt (Suc k) f =
     (case fetch_attempt (nets attempt) ymd opts today f of
        (f', True, evs) \<Rightarrow> (f', evs)
      | (f', False, evs) \<Rightarrow>
          (let evs = (if attempt < opt_retries opts then evs @ [Sleep (opt_retry_seconds opts)] else evs) in
           case fetch_loop nets ymd opts today (Suc attempt) k f' of
             (f'', evs') \<Rightarrow> (f'', evs @ evs')))"

text \<open>
  \<^verbatim>\<open>Command.handle\<close>: the fetch loop, \<^verbatim>\<open>CommandError\<close> when nothing was downloaded, the
  decoding of the archive (\<open>read_bundle\<close> stands for \<^verbatim>\<open>zipfile\<close> and \<^verbatim>\<open>csv\<close>), then the
  import. The options are normalised first: \<^verbatim>\<open>base_url\<close> and \<^verbatim>\<open>save_zip_dir\<close> stripped,
  \<^verbatim>\<open>retries = max(1, ...)\<close>, \<^verbatim>\<open>retry_seconds = max(0, ...)\<close>.
\<close>

definition handle :: "(nat \<Rightarrow> network) \<Rightarrow> (date \<Rightarrow> string) \<Rightarrow> (bytes \<Rightarrow> exn + tables) \<Rightarrow> store_env
              \<Rightarrow> options \<Rightarrow> timestamp \<Rightarrow> date \<Rightarrow> real \<Rightarrow> catalog
              \<Rightarrow> (exn + totals) \<times> catalog \<times> event list" where
  "handle nets ymd read_bundle env opts now_ts today elapsed c =
     (let retries = max 1 (opt_retries opts);
          opts = opts\<lparr>opt_base_url := strip (opt_base_url opts), opt_retries := retries,
                      opt_retry_seconds := max 0 (opt_retry_seconds opts),
                      opt_save_zip_dir := strip (opt_save_zip_dir opts)\<rparr>;
          (f, evs) = fetch_loop nets ymd opts today 1 retries
                       \<lparr>data_bytes = None, got_source_name = [], got_file_date = None, last_err = None\<rparr>
      in case data_bytes f of
           None \<Rightarrow> (Inl CommandError, c, evs)
         | Some b \<Rightarrow>
             (case read_bundle b of
                Inl e \<Rightarrow> (Inl e, c, evs)
              | Inr tb \<Rightarrow>
                  (case import_tables env tb
                          \<lparr>base_url = opt_base_url opts, run_source_name = got_source_name f,
                           run_file_date = got_file_date f, run_now = now_ts,
                           do_mark_sold = (\<not> opt_no_mark_sold opts), duration = elapsed\<rparr> c of
                     (r, c') \<Rightarrow> (r, c', evs))))"

section \<open>The standalone script (parse\_centris\_zip.py)\<close>

text \<open>
  The script carries its own copies of the extraction functions. Its \<^verbatim>\<open>extract_units\<close>
  and \<^verbatim>\<open>find_latest_available\<close> are the ones above, statement for statement. Its
  \<^verbatim>\<open>extract_description\<close> and \<^verbatim>\<open>extract_proximites\<close> differ in their patterns, which
  are written \<^verbatim>\<open>r'<br\\s*/?>'\<close>, \<^verbatim>\<open>r'A\\s*proximite\\s*:?\\s*(.+)$'\<close> and \<^verbatim>\<open>r'[;,]\\s*'\<close>:
  in a raw string the two backslashes are a pattern for one literal backslash, and the
  \<^verbatim>\<open>s\<close> that follows is the letter.
\<close>

definition br_pattern_zip :: "item list" where
  "br_pattern_zip = [One (LitI CHR ''<''), One (LitI CHR ''b''), One (LitI CHR ''r''),
                     One (LitI (CHR 0x5C)), Star (LitI CHR ''s''),
                     Opt (LitI CHR ''/''), One (LitI CHR ''>'')]"

definition extract_description_zip :: "row list \<Rightarrow> string option" where
  "extract_description_zip remarques_rows =
     (let chosen = ordered_remarques remarques_rows;
          text = py_join '' '' (filter (\<lambda>t. t \<noteq> []) (map (\<lambda>r. clean (last r)) chosen));
          text = re_sub br_pattern_zip '' '' text
      in if strip text \<noteq> [] then Some (strip text) else None)"

definition proximite_pattern_zip :: "item list" where
  "proximite_pattern_zip =
     [One (LitI (CHR 0xC0)), One (LitI (CHR 0x5C)), Star (LitI CHR ''s'')] @
     map (\<lambda>c. One (LitI c)) (''proximit'' @ [CHR 0xE9]) @
     [One (LitI (CHR 0x5C)), Star (LitI CHR ''s''), Opt (LitI CHR '':''),
      One (LitI (CHR 0x5C)), Star (LitI CHR ''s''),
      GroupOpen, One DotAll, Star DotAll, GroupClose, Dollar]"

definition separator_pattern_zip :: "item list" where
  "separator_pattern_zip = [One (OneOf '';,''), One (Lit (CHR 0x5C)), Star (Lit CHR ''s'')]"

definition prox_from_addenda_zip :: "string \<Rightarrow> string list" where
  "prox_from_addenda_zip addenda_text =
     (case re_search_group proximite_pattern_zip addenda_text of
        None \<Rightarrow> []
      | Some seg \<Rightarrow>
          filter (\<lambda>item. item \<noteq> [])
            (map (\<lambda>item. strip (re_sub tag_pattern [] item)) (re_split separator_pattern_zip seg)))"

text \<open>The script's \<^verbatim>\<open>extract_proximites\<close> returns the joined text only, \<^verbatim>\<open>None\<close> when the
  list is empty.\<close>

definition extract_proximites_zip :: "string \<Rightarrow> row list \<Rightarrow> string option" where
  "extract_proximites_zip addenda_text carac_rows =
     (let prox = prox_from_rows carac_rows;
          prox = (if prox = [] \<and> addenda_text \<noteq> [] then prox @ prox_from_addenda_zip addenda_text else prox);
          out = unique_in_order prox {} []
      in if out \<noteq> [] then Some (py_join '', '' out) else None)"

section \<open>Notions the properties are stated with\<close>

text \<open>A row of the primary table is counted when it is not empty and its cleaned first
  field is not empty; \<open>seen_in\<close> is the set of ids of the counted rows.\<close>

definition counted :: "row \<Rightarrow> bool" where
  "counted row \<longleftrightarrow> row \<noteq> [] \<and> clean (hd row) \<noteq> []"

definition row_ident :: "row \<Rightarrow> string" where
  "row_ident row = clean (hd row)"

definition seen_in :: "row list \<Rightarrow> string set" where
  "seen_in rows = row_ident ` set (filter counted rows)"

definition ids_of :: "catalog \<Rightarrow> string set" where
  "ids_of c = centris_id ` set (listings c)"

definition active_ids :: "catalog \<Rightarrow> string set" where
  "active_ids c = centris_id ` {l \<in> set (listings c). status l = STATUS_ACTIVE}"

definition photos_of :: "catalog \<Rightarrow> string \<Rightarrow> listing_photo list" where
  "photos_of c ident = filter (\<lambda>ph. photo_listing ph = ident) (photos c)"

text \<open>The primary key: no two rows of \<^verbatim>\<open>Listing\<close> share a \<open>centris_id\<close>.\<close>

definition pk_unique :: "catalog \<Rightarrow> bool" where
  "pk_unique c \<longleftrightarrow> distinct (map centris_id (listings c))"

text \<open>What the upsert of one row makes of the table of listings: \<open>k\<close> is the number
  of the first of its two storage operations.\<close>

definition upsert_listings :: "store_env \<Rightarrow> timestamp \<Rightarrow> string \<Rightarrow> extracted \<Rightarrow> nat \<Rightarrow> listing list \<Rightarrow> listing list" where
  "upsert_listings env ts ident x k ls =
     (case find (\<lambda>l. centris_id l = ident) ls of
        None \<Rightarrow> ls @ [new_listing ident x ts (op_clock env k)]
      | Some obj \<Rightarrow> map (\<lambda>l. if centris_id l = ident
                               then (ensure_slug env (overwrite obj x ts))\<lparr>updated_at := op_clock env (Suc k)\<rparr>
                               else l) ls)"

text \<open>Deduplication that keeps the first occurrence of every element, in order.\<close>

fun dedup_first :: "'a list \<Rightarrow> 'a list" where
  "dedup_first [] = []"
| "dedup_first (x # xs) = x # dedup_first (filter (\<lambda>y. y \<noteq> x) xs)"

text \<open>The items the deduplication of \<^verbatim>\<open>extract_proximites\<close> starts from: the labelled
  rows of the proximity category, or, when there is none and the addenda text is not
  empty, the pieces found in the addenda text.\<close>

definition prox_items :: "string \<Rightarrow> row list \<Rightarrow> string list" where
  "prox_items addenda_text carac_rows =
     (if prox_from_rows carac_rows = [] \<and> addenda_text \<noteq> []
      then prox_from_addenda addenda_text else prox_from_rows carac_rows)"

text \<open>The last counted row of an id in the primary table, if there is one.\<close>

fun last_row_for :: "string \<Rightarrow> row list \<Rightarrow> row option" where
  "last_row_for i [] = None"
| "last_row_for i (r # rs) =
     (case last_row_for i rs of
        Some r' \<Rightarrow> Some r'
      | None \<Rightarrow> if counted r \<and> row_ident r = i then Some r else None)"

text \<open>Two entries that agree on every column but \<open>last_seen_at\<close> and \<open>updated_at\<close>, the
  two timestamps every run refreshes.\<close>

definition same_entry :: "listing \<Rightarrow> listing \<Rightarrow> bool" where
  "same_entry a b \<longleftrightarrow> a\<lparr>last_seen_at := None, updated_at := 0\<rparr> = b\<lparr>last_seen_at := None, updated_at := 0\<rparr>"

text \<open>How a row of the table stands after a loop that only updates: same key, same
  \<open>first_seen_at\<close>; untouched when its id is not among those seen; and its slug kept
  when \<^verbatim>\<open>ensure_slug\<close> had nothing to do on it.\<close>

definition kept_row :: "store_env \<Rightarrow> string set \<Rightarrow> listing \<Rightarrow> listing \<Rightarrow> bool" where
  "kept_row env seen l l' \<longleftrightarrow>
     centris_id l' = centris_id l \<and> first_seen_at l' = first_seen_at l
     \<and> (centris_id l \<notin> seen \<longrightarrow> l' = l)
     \<and> (ensure_slug env l = l \<longrightarrow> slug l' = slug l \<and> ensure_slug env l' = l')"

section \<open>Concrete inputs\<close>

text \<open>An index that lists four bundles, out of order; the file name of a date is
  rendered as its ordinal here.\<close>

definition net_listed :: network where
  "net_listed = \<lparr>index_dates = Inr [5, 9, 7, 12], head_ok = (\<lambda>u. False),
                  get_body = (\<lambda>u. Inr ''PK''), save_raises = False\<rparr>"

text \<open>An index that cannot be read, with yesterday's bundle (day 9) in place; and a
  server that has nothing.\<close>

definition ymd_plain :: "date \<Rightarrow> string" where
  "ymd_plain d = (if d = 9 then ''0009'' else if d = 10 then ''0010'' else ''0000'')"

definition net_unlisted :: network where
  "net_unlisted = \<lparr>index_dates = Inl RequestException,
                    head_ok = (\<lambda>u. u = ''http://h/centris/NOMADESMARKETING0009.zip''),
                    get_body = (\<lambda>u. Inr ''PK''), save_raises = False\<rparr>"

definition net_down :: network where
  "net_down = \<lparr>index_dates = Inr [], head_ok = (\<lambda>u. False),
                get_body = (\<lambda>u. Inr ''PK''), save_raises = False\<rparr>"

definition opts_plain :: options where
  "opts_plain = \<lparr>opt_base_url = ''http://h/centris/'', opt_retries = 2, opt_retry_seconds = 300,
                  opt_save_zip_dir = [], opt_no_mark_sold = False\<rparr>"

definition nothing_fetched :: fetched where
  "nothing_fetched = \<lparr>data_bytes = None, got_source_name = [], got_file_date = None, last_err = None\<rparr>"

text \<open>
  A catalog with one active listing (1002), one sold listing (1003) and one stored photo
  of the latter; a bundle whose primary table names 1001 twice, skips an empty row and
  a blank id, and names 1003 again; it carries two photos of 1001, out of order, and
  none of 1003.
\<close>

definition stored_listing :: "string \<Rightarrow> string \<Rightarrow> timestamp option \<Rightarrow> listing" where
  "stored_listing ident st sold =
     \<lparr>centris_id = ident, slug = ''listing-'' @ ident, prix = Some 100000, adresse = ''1 rue A'',
      nombre_pieces = Some 5, nombre_chambres = Some 2, nombre_sdb = Some 1,
      superficie_habitable = None, superficie_terrain = None, annee_construction = Some 1990,
      inclus = [], description = ''x'', proximites_text = [], proximites = [],
      caracteristiques_text = [], caracteristiques = [], status = st, sold_at = sold,
      first_seen_at = 10, last_seen_at = Some 20, updated_at = 20\<rparr>"

definition catalog_before :: catalog where
  "catalog_before =
     \<lparr>listings = [stored_listing ''1002'' STATUS_ACTIVE None, stored_listing ''1003'' STATUS_SOLD (Some 500)],
      photos = [\<lparr>photo_listing = ''1003'', photo_sequence_no = 1, photo_url = ''http://old/1.jpg''\<rparr>],
      fetch_logs = []\<rparr>"

definition demo_bundle :: tables where
  "demo_bundle =
     \<lparr>rows_ins = [[''1001'', [], [], [], [], [], ''250000''], [], [''  ''], [''1001''], [[CHR 0x22] @ ''1003'' @ [CHR 0x22]]],
      rows_rem = [],
      rows_car = [],
      rows_pho = [[''1001'', ''2'', [], [], [], [], ''http://a/2.jpg''],
                  [''1001'', ''1'', [], [], [], [], ''http://a/1.jpg'']],
      rows_uni = [],
      rows_pie = [],
      addenda = None\<rparr>"

definition store_ok :: store_env where
  "store_ok = \<lparr>op_fails = (\<lambda>n. False), op_clock = (\<lambda>n. 1000 + int n), slugify = (\<lambda>s. s)\<rparr>"

definition info_first :: run_info where
  "info_first = \<lparr>base_url = ''http://h/centris/'', run_source_name = ''NOMADESMARKETING0009.zip'',
                  run_file_date = Some 9, run_now = 1000, do_mark_sold = True, duration = 2\<rparr>"

definition info_second :: run_info where
  "info_second = \<lparr>base_url = ''http://h/centris/'', run_source_name = ''NOMADESMARKETING0009.zip'',
                   run_file_date = Some 9, run_now = 2000, do_mark_sold = True, duration = 2\<rparr>"

text \<open>Rows of the auxiliary tables used below: a characteristic listed twice; a single
  unit whose sequence is 2; remarks out of order, and remarks with a sequence that is
  not a number; the addenda sentence of the specification.\<close>

definition carac_twice :: "row list" where
  "carac_twice = [[''1001'', ''ALLE'', ''NPAV''], [''1001'', ''PROX'', ''AUTO''],
                  [''1001'', ''ALLE'', ''NPAV''], [''1001'', ''PROX'', ''AUTO'']]"

definition unit_two :: "row list" where
  "unit_two = [[''1001'', ''2'', [], ''5'', ''3'']]"

definition unit_unnumbered :: "row list" where
  "unit_unnumbered = [[''1001'', ''A'', [], ''5'', ''3''], [''1001'', ''1'', [], ''7'', ''4'']]"

definition units_mixed :: "row list" where
  "units_mixed = [[''1001'', ''3'', [], ''9'', ''9''], [''1001'', ''1'', [], ''7'', ''4''],
                  [''1001'', [], [], ''8'', ''8''], [''1001'', ''1'', [], ''6'', ''2'']]"

definition remarks_unordered :: "row list" where
  "remarks_unordered = [[''1001'', ''2'', ''F'', [], [], [], ''World''],
                        [''1001'', ''1'', ''A'', [], [], [], ''ignored''],
                        [''1001'', ''1'', ''F'', [], [], [], ''Hello<br>big'']]"

definition remarks_unnumbered :: "row list" where
  "remarks_unnumbered = [[''1001'', ''2'', ''F'', [], [], [], ''World''],
                         [''1001'', ''x'', ''F'', [], [], [], ''Hello'']]"

definition addenda_sentence :: string where
  "addenda_sentence = [CHR 0xC0] @ '' proximit'' @ [CHR 0xE9] @ '': Autoroute, '' @ [CHR 0xC9] @ ''cole primaire''"

definition tables_twice :: tables where
  "tables_twice = \<lparr>rows_ins = [[''1001'']], rows_rem = remarks_unordered, rows_car = carac_twice,
                    rows_pho = [], rows_uni = unit_two, rows_pie = [], addenda = None\<rparr>"

text \<open>A store whose operation number \<open>k\<close> raises; a bundle whose second row carries a
  price that \<^verbatim>\<open>isdigit\<close> accepts and \<^verbatim>\<open>int\<close> rejects (a superscript two); a decoder that
  always yields the demo bundle.\<close>

definition store_failing :: "nat \<Rightarrow> store_env" where
  "store_failing k = \<lparr>op_fails = (\<lambda>n. n = k), op_clock = (\<lambda>n. 1000 + int n), slugify = (\<lambda>s. s)\<rparr>"

definition bundle_bad_price :: tables where
  "bundle_bad_price =
     \<lparr>rows_ins = [[''1001'', [], [], [], [], [], ''250000''], [''1004'', [], [], [], [], [], [CHR 0xB2]]],
      rows_rem = [], rows_car = [], rows_pho = [], rows_uni = [], rows_pie = [], addenda = None\<rparr>"

definition read_demo :: "bytes \<Rightarrow> exn + tables" where
  "read_demo b = Inr demo_bundle"

text \<open>The catalog after the demo bundle has been imported once, and after it has been
  imported a second time, a thousand seconds later.\<close>

definition catalog_after_first :: catalog where
  "catalog_after_first = snd (import_tables store_ok demo_bundle info_first catalog_before)"

definition catalog_after_second :: catalog where
  "catalog_after_second = snd (import_tables store_ok demo_bundle info_second catalog_after_first)"

section \<open>Discovery\<close>

lemma py_max_Max:
  assumes "xs \<noteq> []"
  shows "py_max xs = Inr (Max (set xs))"
proof (cases xs)
  case Nil
  then show ?thesis using assms by simp
next
  case (Cons a list)
  then show ?thesis using Max.set_eq_fold[of a list] by simp
qed

lemma list_zip_dates_set:
  "index_dates net = Inr ds \<Longrightarrow> \<exists>dates. list_zip_dates_from_index net = Inr dates \<and> set dates = set ds"
  by (simp add: list_zip_dates_from_index_def)

lemma best_from_index_some:
  assumes "index_dates net = Inr ds" "ds \<noteq> []"
  shows "best_from_index net today =
           Some (if \<exists>d\<in>set ds. d \<le> today then Max {d \<in> set ds. d \<le> today} else Max (set ds))"
proof -
  obtain dates where d: "list_zip_dates_from_index net = Inr dates" "set dates = set ds"
    using list_zip_dates_set[OF assms(1)] by blast
  have ne: "dates \<noteq> []" using d(2) assms(2) by auto
  show ?thesis
  proof (cases "\<exists>d\<in>set ds. d \<le> today")
    case True
    then have f: "filter (\<lambda>d. d \<le> today) dates \<noteq> []"
      using d(2) by (auto simp: filter_empty_conv)
    have s: "set (filter (\<lambda>d. d \<le> today) dates) = {d \<in> set ds. d \<le> today}"
      using d(2) by auto
    show ?thesis using True d ne py_max_Max[OF f] s
      by (simp add: best_from_index_def list_ex_iff)
  next
    case False
    then show ?thesis using d ne py_max_Max[OF ne]
      by (simp add: best_from_index_def list_ex_iff)
  qed
qed

lemma best_from_index_none:
  "index_dates net = Inr [] \<or> (\<exists>e. index_dates net = Inl e) \<Longrightarrow> best_from_index net today = None"
  by (auto simp: best_from_index_def list_zip_dates_from_index_def)

lemma probe_events: "probe net ymd base today ds = (r, evs) \<Longrightarrow> \<forall>u. Download u \<notin> set evs"
  by (induction ds arbitrary: r evs) (auto simp: Let_def split: if_splits prod.splits)

lemma find_latest_events:
  "find_latest_available net ymd base today = (r, evs) \<Longrightarrow> \<forall>u. Download u \<notin> set evs"
  by (auto simp: find_latest_available_def simp del: probe.simps
           split: option.splits prod.splits dest: probe_events)

text \<open>
  C9. When the index gives at least one date, discovery resolves to the greatest date
  not after today if there is one, and to the greatest date otherwise. When the index
  gives nothing (no date, or an exception), discovery probes today, the day before and
  the day before that, in this order, and resolves to the first date whose HEAD request
  succeeds; when none does it raises. When discovery raises, the attempt that called it
  ends without a download: it requests no archive and leaves \<open>data_bytes\<close> as it was.
\<close>

theorem find_latest_available_resolves:
  "(\<forall>ds. index_dates net = Inr ds \<and> ds \<noteq> [] \<and> (\<exists>d\<in>set ds. d \<le> today) \<longrightarrow>
      fst (find_latest_available net ymd base today) =
        Inr (compose_url_for_date ymd base (Max {d \<in> set ds. d \<le> today}), Max {d \<in> set ds. d \<le> today}))
   \<and> (\<forall>ds. index_dates net = Inr ds \<and> ds \<noteq> [] \<and> \<not> (\<exists>d\<in>set ds. d \<le> today) \<longrightarrow>
      fst (find_latest_available net ymd base today) =
        Inr (compose_url_for_date ymd base (Max (set ds)), Max (set ds)))
   \<and> (index_dates net = Inr [] \<or> (\<exists>e. index_dates net = Inl e) \<longrightarrow>
      fst (find_latest_available net ymd base today) =
        (if head_ok net (compose_url_for_date ymd base today)
           then Inr (compose_url_for_date ymd base today, today)
         else if head_ok net (compose_url_for_date ymd base (today - 1))
           then Inr (compose_url_for_date ymd base (today - 1), today - 1)
         else if head_ok net (compose_url_for_date ymd base (today - 2))
           then Inr (compose_url_for_date ymd base (today - 2), today - 2)
         else Inl RuntimeError))
   \<and> (\<forall>e f opts. fst (find_latest_available net ymd base today) = Inl e \<and> opt_base_url opts = base \<longrightarrow>
        (case fetch_attempt net ymd opts today f of
           (f', ended, evs) \<Rightarrow> data_bytes f' = data_bytes f \<and> \<not> ended \<and> (\<forall>u. Download u \<notin> set evs)))"
proof (intro conjI allI impI)
  fix ds assume "index_dates net = Inr ds \<and> ds \<noteq> [] \<and> (\<exists>d\<in>set ds. d \<le> today)"
  then show "fst (find_latest_available net ymd base today) =
        Inr (compose_url_for_date ymd base (Max {d \<in> set ds. d \<le> today}), Max {d \<in> set ds. d \<le> today})"
    using best_from_index_some[of net ds today] by (simp add: find_latest_available_def)
next
  fix ds assume "index_dates net = Inr ds \<and> ds \<noteq> [] \<and> \<not> (\<exists>d\<in>set ds. d \<le> today)"
  then show "fst (find_latest_available net ymd base today) =
        Inr (compose_url_for_date ymd base (Max (set ds)), Max (set ds))"
    using best_from_index_some[of net ds today] by (simp add: find_latest_available_def)
next
  assume "index_dates net = Inr [] \<or> (\<exists>e. index_dates net = Inl e)"
  then have "best_from_index net today = None" by (rule best_from_index_none)
  then show "fst (find_latest_available net ymd base today) =
        (if head_ok net (compose_url_for_date ymd base today)
           then Inr (compose_url_for_date ymd base today, today)
         else if head_ok net (compose_url_for_date ymd base (today - 1))
           then Inr (compose_url_for_date ymd base (today - 1), today - 1)
         else if head_ok net (compose_url_for_date ymd base (today - 2))
           then Inr (compose_url_for_date ymd base (today - 2), today - 2)
         else Inl RuntimeError)"
    by (simp add: find_latest_available_def Let_def split: prod.splits)
next
  fix e and f :: fetched and opts :: options
  assume a: "fst (find_latest_available net ymd base today) = Inl e \<and> opt_base_url opts = base"
  obtain r evs where fl: "find_latest_available net ymd base today = (r, evs)"
    by (cases "find_latest_available net ymd base today")
  with a have r: "r = Inl e" by simp
  from find_latest_events[OF fl] have "\<forall>u. Download u \<notin> set evs" .
  then show "case fetch_attempt net ymd opts today f of
           (f', ended, evs) \<Rightarrow> data_bytes f' = data_bytes f \<and> \<not> ended \<and> (\<forall>u. Download u \<notin> set evs)"
    using a fl r by (simp add: fetch_attempt_def)
qed

theorem find_latest_available_resolves_witness:
  "fst (find_latest_available net_listed ymd_plain ''http://h/centris/'' 10)
     = Inr (''http://h/centris/NOMADESMARKETING0009.zip'', 9)
   \<and> fst (find_latest_available net_listed ymd_plain ''http://h/centris/'' 3)
     = Inr (''http://h/centris/NOMADESMARKETING0000.zip'', 12)
   \<and> fst (find_latest_available net_unlisted ymd_plain ''http://h/centris/'' 10)
     = Inr (''http://h/centris/NOMADESMARKETING0009.zip'', 9)
   \<and> fst (find_latest_available net_down ymd_plain ''http://h/centris/'' 10) = Inl RuntimeError
   \<and> (case fetch_attempt net_down ymd_plain opts_plain 10 nothing_fetched of
         (f', ended, evs) \<Rightarrow> data_bytes f' = None \<and> \<not> ended \<and> (\<forall>u. Download u \<notin> set evs))"
proof -
  have a: "{d \<in> set [5, 9, 7, 12 :: int]. d \<le> 10} = {5, 9, 7}" by auto
  have b: "\<not> (\<exists>d \<in> set [5, 9, 7, 12 :: int]. d \<le> 3)" by simp
  note t1 = find_latest_available_resolves[of net_listed 10 ymd_plain "''http://h/centris/''"]
  note t2 = find_latest_available_resolves[of net_listed 3 ymd_plain "''http://h/centris/''"]
  note t3 = find_latest_available_resolves[of net_unlisted 10 ymd_plain "''http://h/centris/''"]
  note t4 = find_latest_available_resolves[of net_down 10 ymd_plain "''http://h/centris/''"]
  have c1: "fst (find_latest_available net_listed ymd_plain ''http://h/centris/'' 10)
     = Inr (''http://h/centris/NOMADESMARKETING0009.zip'', 9)"
    using t1[THEN conjunct1, rule_format, of "[5, 9, 7, 12]"] a
    by (simp add: net_listed_def compose_url_for_date_def ymd_plain_def)
  have c2: "fst (find_latest_available net_listed ymd_plain ''http://h/centris/'' 3)
     = Inr (''http://h/centris/NOMADESMARKETING0000.zip'', 12)"
    using t2[THEN conjunct2, THEN conjunct1, rule_format, of "[5, 9, 7, 12]"]
    by (simp add: net_listed_def compose_url_for_date_def ymd_plain_def)
  have c3: "fst (find_latest_available net_unlisted ymd_plain ''http://h/centris/'' 10)
     = Inr (''http://h/centris/NOMADESMARKETING0009.zip'', 9)"
    using t3[THEN conjunct2, THEN conjunct2, THEN conjunct1]
    by (simp add: net_unlisted_def compose_url_for_date_def ymd_plain_def)
  have c4: "fst (find_latest_available net_down ymd_plain ''http://h/centris/'' 10) = Inl RuntimeError"
    using t4[THEN conjunct2, THEN conjunct2, THEN conjunct1]
    by (simp add: net_down_def)
  have c5: "case fetch_attempt net_down ymd_plain opts_plain 10 nothing_fetched of
         (f', ended, evs) \<Rightarrow> data_bytes f' = None \<and> \<not> ended \<and> (\<forall>u. Download u \<notin> set evs)"
    using t4[THEN conjunct2, THEN conjunct2, THEN conjunct2, rule_format, of RuntimeError opts_plain nothing_fetched] c4
    by (simp add: opts_plain_def nothing_fetched_def)
  show ?thesis using c1 c2 c3 c4 c5 by blast
qed

section \<open>The import loop\<close>

lemma bind_exn_Inr: "bind_exn m f = Inr y \<longleftrightarrow> (\<exists>x. m = Inr x \<and> f x = Inr y)"
  by (cases m) (simp_all add: bind_exn_def)

lemma storage_op_Inr:
  "storage_op env st f = Inr st' \<longleftrightarrow>
     (\<not> op_fails env (tick st) \<and> st' = st\<lparr>db := f (op_clock env (tick st)) (db st), tick := Suc (tick st)\<rparr>)"
  by (auto simp: storage_op_def)

lemma centris_id_overwrite [simp]: "centris_id (overwrite obj x ts) = centris_id obj"
  by (simp add: overwrite_def)

lemma centris_id_ensure_slug [simp]: "centris_id (ensure_slug env l) = centris_id l"
  by (simp add: ensure_slug_def)

lemma centris_id_new_listing [simp]: "centris_id (new_listing ident x ts t) = ident"
  by (simp add: new_listing_def)

lemma ensure_slug_new_listing [simp]: "ensure_slug env (new_listing ident x ts t) = new_listing ident x ts t"
  by (simp add: ensure_slug_def new_listing_def)

lemma find_id_None: "find (\<lambda>l. centris_id l = ident) ls = None \<longleftrightarrow> ident \<notin> centris_id ` set ls"
  by (auto simp: find_None_iff)

lemma find_id_Some: "find (\<lambda>l. centris_id l = ident) ls = Some obj \<Longrightarrow> centris_id obj = ident \<and> obj \<in> set ls"
  by (auto simp: find_Some_iff)

lemma save_slug_new:
  assumes "find (\<lambda>l. centris_id l = ident) (listings c) = None"
  shows "save_slug (new_listing ident x ts t') (insert_listing (new_listing ident x ts t) c)
           = insert_listing (new_listing ident x ts t) c"
proof -
  let ?n = "new_listing ident x ts t" and ?n' = "new_listing ident x ts t'"
  have a: "\<forall>l \<in> set (listings c). centris_id l \<noteq> ident" using assms by (auto simp: find_None_iff)
  have b: "?n\<lparr>slug := slug ?n'\<rparr> = ?n" by (simp add: new_listing_def)
  have "map (\<lambda>l. if centris_id l = centris_id ?n' then l\<lparr>slug := slug ?n'\<rparr> else l) (listings c @ [?n])
          = listings c @ [?n]"
  proof (rule map_idI)
    fix l assume "l \<in> set (listings c @ [?n])"
    then consider "l \<in> set (listings c)" | "l = ?n" by auto
    then show "(if centris_id l = centris_id ?n' then l\<lparr>slug := slug ?n'\<rparr> else l) = l"
    proof cases
      case 1
      then show ?thesis using a by simp
    next
      case 2
      have "?n\<lparr>slug := slug ?n'\<rparr> = ?n" by (rule b)
      with 2 show ?thesis by simp
    qed
  qed
  then show ?thesis unfolding save_slug_def insert_listing_def by simp
qed

lemma upsert_new:
  assumes "upsert env ts ident x st = Inr st'"
      and "find (\<lambda>l. centris_id l = ident) (listings (db st)) = None"
  shows "st' = st\<lparr>db := insert_listing (new_listing ident x ts (op_clock env (tick st))) (db st),
                  tick := tick st + 2, added := added st + 1\<rparr>"
  using assms save_slug_new[OF assms(2)]
  by (auto simp: upsert_def bind_exn_Inr storage_op_Inr)

lemma upsert_old:
  assumes "upsert env ts ident x st = Inr st'"
      and "find (\<lambda>l. centris_id l = ident) (listings (db st)) = Some obj"
  shows "st' = st\<lparr>db := save_listing ((ensure_slug env (overwrite obj x ts))\<lparr>updated_at := op_clock env (Suc (tick st))\<rparr>) (db st),
                  tick := tick st + 2, updated := updated st + 1\<rparr>"
  using assms
  by (auto simp: upsert_def bind_exn_Inr storage_op_Inr)

lemma replace_photos_Inr:
  assumes "replace_photos env ident phs st = Inr st'"
  shows "st' = st\<lparr>db := (if phs \<noteq> [] then bulk_create (numbered_photos ident phs) (delete_photos ident (db st)) else db st),
                  tick := tick st + (if phs \<noteq> [] then 2 else 0)\<rparr>"
  using assms by (auto simp: replace_photos_def bind_exn_Inr storage_op_Inr split: if_splits)

lemma process_row_skip: "\<not> counted row \<Longrightarrow> process_row env tb ts row st = Inr st"
  by (auto simp: process_row_def counted_def)

lemma process_row_Inr:
  assumes "process_row env tb ts row st = Inr st'" "counted row"
  obtains x st1 where
    "extract_row tb row (row_ident row) = Inr x"
    "upsert env ts (row_ident row) x
        (st\<lparr>n_total := n_total st + 1, seen_ids := insert (row_ident row) (seen_ids st)\<rparr>) = Inr st1"
    "replace_photos env (row_ident row) (extract_photos (by_id (rows_pho tb) (row_ident row))) st1 = Inr st'"
  using assms by (auto simp: process_row_def counted_def row_ident_def bind_exn_Inr Let_def)

lemma process_row_effect:
  assumes "process_row env tb ts row st = Inr st'" "counted row"
  obtains x where
    "extract_row tb row (row_ident row) = Inr x"
    "listings (db st') = upsert_listings env ts (row_ident row) x (tick st) (listings (db st))"
    "photos (db st') =
       (let phs = extract_photos (by_id (rows_pho tb) (row_ident row)) in
        if phs \<noteq> [] then filter (\<lambda>ph. photo_listing ph \<noteq> row_ident row) (photos (db st)) @ numbered_photos (row_ident row) phs
        else photos (db st))"
    "fetch_logs (db st') = fetch_logs (db st)"
    "n_total st' = n_total st + 1"
    "seen_ids st' = insert (row_ident row) (seen_ids st)"
    "added st' = added st + (if row_ident row \<in> centris_id ` set (listings (db st)) then 0 else 1)"
    "updated st' = updated st + (if row_ident row \<in> centris_id ` set (listings (db st)) then 1 else 0)"
proof -
  from process_row_Inr[OF assms] obtain x st1 where
    x: "extract_row tb row (row_ident row) = Inr x" and
    u: "upsert env ts (row_ident row) x
        (st\<lparr>n_total := n_total st + 1, seen_ids := insert (row_ident row) (seen_ids st)\<rparr>) = Inr st1" and
    r: "replace_photos env (row_ident row) (extract_photos (by_id (rows_pho tb) (row_ident row))) st1 = Inr st'"
    by blast
  let ?st0 = "st\<lparr>n_total := n_total st + 1, seen_ids := insert (row_ident row) (seen_ids st)\<rparr>"
  note r' = replace_photos_Inr[OF r]
  show thesis
  proof (cases "find (\<lambda>l. centris_id l = row_ident row) (listings (db st))")
    case None
    then have n: "find (\<lambda>l. centris_id l = row_ident row) (listings (db ?st0)) = None" by simp
    note u' = upsert_new[OF u n]
    have nin: "row_ident row \<notin> centris_id ` set (listings (db st))" using None by (simp add: find_id_None)
    show ?thesis
      apply (rule that[OF x])
      using None nin by (simp_all add: r' u' upsert_listings_def insert_listing_def bulk_create_def delete_photos_def Let_def)
  next
    case (Some obj)
    then have n: "find (\<lambda>l. centris_id l = row_ident row) (listings (db ?st0)) = Some obj" by simp
    note u' = upsert_old[OF u n]
    have isin: "row_ident row \<in> centris_id ` set (listings (db st))" using find_id_Some[OF Some] by (metis imageI)
    have cid: "centris_id obj = row_ident row" using find_id_Some[OF Some] by simp
    show ?thesis
      apply (rule that[OF x])
      using Some isin cid by (simp_all add: r' u' upsert_listings_def save_listing_def bulk_create_def delete_photos_def Let_def)
  qed
qed


lemma overwrite_idem [simp]: "overwrite (overwrite l x ts) x ts = overwrite l x ts"
  by (simp add: overwrite_def)

lemma overwrite_new_listing [simp]: "overwrite (new_listing ident x ts t) x ts = new_listing ident x ts t"
  by (simp add: overwrite_def new_listing_def)

lemma overwrite_ensure_slug: "overwrite (ensure_slug env l) x ts = ensure_slug env (overwrite l x ts)"
  by (simp add: overwrite_def ensure_slug_def)

lemma overwrite_updated_at: "overwrite (l\<lparr>updated_at := t\<rparr>) x ts = (overwrite l x ts)\<lparr>updated_at := t\<rparr>"
  by (simp add: overwrite_def)

lemma ensure_slug_idem [simp]: "ensure_slug env (ensure_slug env l) = ensure_slug env l"
  by (simp add: ensure_slug_def)

lemma ensure_slug_updated_at: "ensure_slug env (l\<lparr>updated_at := t\<rparr>) = (ensure_slug env l)\<lparr>updated_at := t\<rparr>"
  by (simp add: ensure_slug_def)

lemma saved_fixpoint:
  "overwrite ((ensure_slug env (overwrite obj x ts))\<lparr>updated_at := t\<rparr>) x ts
      = (ensure_slug env (overwrite obj x ts))\<lparr>updated_at := t\<rparr>"
  "ensure_slug env ((ensure_slug env (overwrite obj x ts))\<lparr>updated_at := t\<rparr>)
      = (ensure_slug env (overwrite obj x ts))\<lparr>updated_at := t\<rparr>"
  by (simp_all add: overwrite_updated_at overwrite_ensure_slug ensure_slug_updated_at)

lemma upsert_listings_map_ids:
  "map centris_id (upsert_listings env ts i x k ls) =
     (if i \<in> centris_id ` set ls then map centris_id ls else map centris_id ls @ [i])"
proof (cases "find (\<lambda>l. centris_id l = i) ls")
  case None
  then have "i \<notin> centris_id ` set ls" by (simp add: find_id_None)
  then show ?thesis using None by (simp add: upsert_listings_def)
next
  case (Some obj)
  have "i \<in> centris_id ` set ls" using find_id_Some[OF Some] by (metis imageI)
  moreover have "map centris_id (map (\<lambda>l. if centris_id l = i
                               then (ensure_slug env (overwrite obj x ts))\<lparr>updated_at := op_clock env (Suc k)\<rparr>
                               else l) ls) = map centris_id ls"
    using find_id_Some[OF Some] by (induction ls) auto
  ultimately show ?thesis using Some by (simp add: upsert_listings_def)
qed

lemma upsert_listings_ids:
  "centris_id ` set (upsert_listings env ts i x k ls) = insert i (centris_id ` set ls)"
proof -
  have "centris_id ` set (upsert_listings env ts i x k ls) = set (map centris_id (upsert_listings env ts i x k ls))"
    by simp
  also have "\<dots> = insert i (centris_id ` set ls)"
    unfolding upsert_listings_map_ids by auto
  finally show ?thesis .
qed

lemma upsert_listings_other:
  "j \<noteq> i \<Longrightarrow> filter (\<lambda>l. centris_id l = j) (upsert_listings env ts i x k ls) = filter (\<lambda>l. centris_id l = j) ls"
proof (cases "find (\<lambda>l. centris_id l = i) ls")
  case None
  assume "j \<noteq> i"
  then show ?thesis using None by (auto simp: upsert_listings_def)
next
  case (Some obj)
  assume ji: "j \<noteq> i"
  have c: "centris_id obj = i" using find_id_Some[OF Some] by simp
  have "filter (\<lambda>l. centris_id l = j) (map (\<lambda>l. if centris_id l = i
                               then (ensure_slug env (overwrite obj x ts))\<lparr>updated_at := op_clock env (Suc k)\<rparr>
                               else l) ls) = filter (\<lambda>l. centris_id l = j) ls"
    using ji c by (induction ls) auto
  then show ?thesis using Some by (simp add: upsert_listings_def)
qed

lemma upsert_listings_fresh:
  assumes "l \<in> set (upsert_listings env ts i x k ls)" "centris_id l = i"
  shows "overwrite l x ts = l \<and> ensure_slug env l = l"
proof (cases "find (\<lambda>l. centris_id l = i) ls")
  case None
  then have "\<forall>l\<in>set ls. centris_id l \<noteq> i" by (auto simp: find_None_iff)
  then have "l = new_listing i x ts (op_clock env k)" using assms None by (auto simp: upsert_listings_def)
  then show ?thesis by simp
next
  case (Some obj)
  then have "l = (ensure_slug env (overwrite obj x ts))\<lparr>updated_at := op_clock env (Suc k)\<rparr>"
    using assms by (auto simp: upsert_listings_def split: if_splits)
  then show ?thesis using saved_fixpoint by simp
qed

lemma upsert_listings_unique:
  assumes "distinct (map centris_id ls)" "i \<in> centris_id ` set ls"
  shows "upsert_listings env ts i x k ls =
           map (\<lambda>l. if centris_id l = i
                     then (ensure_slug env (overwrite l x ts))\<lparr>updated_at := op_clock env (Suc k)\<rparr> else l) ls"
proof -
  obtain obj where f: "find (\<lambda>l. centris_id l = i) ls = Some obj"
    using assms(2) by (cases "find (\<lambda>l. centris_id l = i) ls") (auto simp: find_id_None)
  have o: "obj \<in> set ls" "centris_id obj = i" using find_id_Some[OF f] by simp_all
  have "\<forall>l\<in>set ls. centris_id l = i \<longrightarrow> l = obj"
    using assms(1) o by (metis distinct_map inj_onD)
  then have "map (\<lambda>l. if centris_id l = i
                       then (ensure_slug env (overwrite obj x ts))\<lparr>updated_at := op_clock env (Suc k)\<rparr> else l) ls
           = map (\<lambda>l. if centris_id l = i
                       then (ensure_slug env (overwrite l x ts))\<lparr>updated_at := op_clock env (Suc k)\<rparr> else l) ls"
    by (intro map_cong) auto
  then show ?thesis using f by (simp add: upsert_listings_def)
qed


lemma seen_in_Nil [simp]: "seen_in [] = {}"
  by (simp add: seen_in_def)

lemma seen_in_Cons:
  "seen_in (r # rs) = (if counted r then insert (row_ident r) (seen_in rs) else seen_in rs)"
  by (simp add: seen_in_def)

lemma finite_seen_in [simp]: "finite (seen_in rows)"
  by (simp add: seen_in_def)

lemma process_rows_Cons_Inr:
  "process_rows env tb ts (r # rs) st = Inr st' \<longleftrightarrow>
     (\<exists>st1. process_row env tb ts r st = Inr st1 \<and> process_rows env tb ts rs st1 = Inr st')"
  by (simp add: bind_exn_Inr)

lemma process_rows_counts:
  "process_rows env tb ts rows st = Inr st' \<Longrightarrow>
     n_total st' = n_total st + length (filter counted rows)
     \<and> added st' + updated st' = added st + updated st + length (filter counted rows)
     \<and> seen_ids st' = seen_ids st \<union> seen_in rows
     \<and> fetch_logs (db st') = fetch_logs (db st)"
proof (induction rows arbitrary: st)
  case Nil
  then show ?case by simp
next
  case (Cons r rs)
  then obtain st1 where s1: "process_row env tb ts r st = Inr st1"
    and s2: "process_rows env tb ts rs st1 = Inr st'"
    by (auto simp: bind_exn_Inr)
  note ih = Cons.IH[OF s2]
  show ?case
  proof (cases "counted r")
    case True
    from process_row_effect[OF s1 True] obtain x where
      "n_total st1 = n_total st + 1" "seen_ids st1 = insert (row_ident r) (seen_ids st)"
      "added st1 = added st + (if row_ident r \<in> centris_id ` set (listings (db st)) then 0 else 1)"
      "updated st1 = updated st + (if row_ident r \<in> centris_id ` set (listings (db st)) then 1 else 0)"
      "fetch_logs (db st1) = fetch_logs (db st)"
      by blast
    then show ?thesis using ih True by (auto simp: seen_in_Cons)
  next
    case False
    then have "st1 = st" using s1 by (simp add: process_row_skip)
    then show ?thesis using ih False by (simp add: seen_in_Cons)
  qed
qed

lemma process_rows_ids:
  "process_rows env tb ts rows st = Inr st' \<Longrightarrow>
     ids_of (db st') = ids_of (db st) \<union> seen_in rows
     \<and> (pk_unique (db st) \<longrightarrow> pk_unique (db st'))
     \<and> added st' = added st + card (seen_in rows - ids_of (db st))"
proof (induction rows arbitrary: st)
  case Nil
  then show ?case by simp
next
  case (Cons r rs)
  then obtain st1 where s1: "process_row env tb ts r st = Inr st1"
    and s2: "process_rows env tb ts rs st1 = Inr st'"
    by (auto simp: bind_exn_Inr)
  note ih = Cons.IH[OF s2]
  show ?case
  proof (cases "counted r")
    case True
    let ?i = "row_ident r"
    from process_row_effect[OF s1 True] obtain x where
      l: "listings (db st1) = upsert_listings env ts ?i x (tick st) (listings (db st))" and
      a: "added st1 = added st + (if ?i \<in> centris_id ` set (listings (db st)) then 0 else 1)"
      by blast
    have ids1: "ids_of (db st1) = insert ?i (ids_of (db st))"
      by (simp add: ids_of_def l upsert_listings_ids)
    have pk1: "pk_unique (db st) \<longrightarrow> pk_unique (db st1)"
      by (auto simp: pk_unique_def l upsert_listings_map_ids)
    have "card (seen_in (r # rs) - ids_of (db st))
            = (if ?i \<in> ids_of (db st) then 0 else 1) + card (seen_in rs - insert ?i (ids_of (db st)))"
    proof (cases "?i \<in> ids_of (db st)")
      case True
      then have "seen_in (r # rs) - ids_of (db st) = seen_in rs - insert ?i (ids_of (db st))"
        using \<open>counted r\<close> by (auto simp: seen_in_Cons)
      then show ?thesis using True by simp
    next
      case False
      then have "seen_in (r # rs) - ids_of (db st) = insert ?i (seen_in rs - insert ?i (ids_of (db st)))"
        using \<open>counted r\<close> by (auto simp: seen_in_Cons)
      moreover have "?i \<notin> seen_in rs - insert ?i (ids_of (db st))" by simp
      ultimately show ?thesis using False by simp
    qed
    then show ?thesis using ih ids1 pk1 a True by (auto simp: seen_in_Cons ids_of_def)
  next
    case False
    then have "st1 = st" using s1 by (simp add: process_row_skip)
    then show ?thesis using ih False by (simp add: seen_in_Cons)
  qed
qed

lemma process_rows_frame:
  "process_rows env tb ts rows st = Inr st' \<Longrightarrow> j \<notin> seen_in rows \<Longrightarrow>
     filter (\<lambda>l. centris_id l = j) (listings (db st')) = filter (\<lambda>l. centris_id l = j) (listings (db st))"
proof (induction rows arbitrary: st)
  case Nil
  then show ?case by simp
next
  case (Cons r rs)
  then obtain st1 where s1: "process_row env tb ts r st = Inr st1"
    and s2: "process_rows env tb ts rs st1 = Inr st'"
    by (auto simp: bind_exn_Inr)
  have j: "j \<notin> seen_in rs" using Cons.prems(2) by (auto simp: seen_in_Cons split: if_splits)
  note ih = Cons.IH[OF s2 j]
  show ?case
  proof (cases "counted r")
    case True
    from process_row_effect[OF s1 True] obtain x where
      l: "listings (db st1) = upsert_listings env ts (row_ident r) x (tick st) (listings (db st))"
      by blast
    have "j \<noteq> row_ident r" using Cons.prems(2) True by (auto simp: seen_in_Cons)
    then show ?thesis using ih l by (simp add: upsert_listings_other)
  next
    case False
    then have "st1 = st" using s1 by (simp add: process_row_skip)
    then show ?thesis using ih by simp
  qed
qed

lemma process_rows_active:
  "process_rows env tb ts rows st = Inr st' \<Longrightarrow>
     \<forall>l\<in>set (listings (db st')). centris_id l \<in> seen_in rows \<longrightarrow>
        status l = STATUS_ACTIVE \<and> sold_at l = None \<and> last_seen_at l = Some ts"
proof (induction rows arbitrary: st)
  case Nil
  then show ?case by simp
next
  case (Cons r rs)
  then obtain st1 where s1: "process_row env tb ts r st = Inr st1"
    and s2: "process_rows env tb ts rs st1 = Inr st'"
    by (auto simp: bind_exn_Inr)
  note ih = Cons.IH[OF s2]
  show ?case
  proof (intro ballI impI)
    fix l assume l: "l \<in> set (listings (db st'))" and c: "centris_id l \<in> seen_in (r # rs)"
    show "status l = STATUS_ACTIVE \<and> sold_at l = None \<and> last_seen_at l = Some ts"
    proof (cases "centris_id l \<in> seen_in rs")
      case True
      then show ?thesis using ih l by blast
    next
      case False
      then have cr: "counted r" and i: "centris_id l = row_ident r"
        using c by (auto simp: seen_in_Cons split: if_splits)
      from process_row_effect[OF s1 cr] obtain x where
        ls: "listings (db st1) = upsert_listings env ts (row_ident r) x (tick st) (listings (db st))"
        by blast
      have "l \<in> set (filter (\<lambda>l'. centris_id l' = centris_id l) (listings (db st')))" using l by simp
      then have "l \<in> set (filter (\<lambda>l'. centris_id l' = centris_id l) (listings (db st1)))"
        using process_rows_frame[OF s2 False] by simp
      then have "l \<in> set (upsert_listings env ts (row_ident r) x (tick st) (listings (db st)))"
        using ls by simp
      from upsert_listings_fresh[OF this i] have "overwrite l x ts = l" by simp
      then have "status l = status (overwrite l x ts)" "sold_at l = sold_at (overwrite l x ts)"
        "last_seen_at l = last_seen_at (overwrite l x ts)" by simp_all
      then show ?thesis by (simp add: overwrite_def)
    qed
  qed
qed

lemma photos_of_step:
  "filter (\<lambda>ph. photo_listing ph = j)
      (filter (\<lambda>ph. photo_listing ph \<noteq> i) phs @ numbered_photos i new)
     = (if j = i then numbered_photos i new else filter (\<lambda>ph. photo_listing ph = j) phs)"
proof -
  have a: "filter (\<lambda>ph. photo_listing ph = j) (numbered_photos i new) = (if j = i then numbered_photos i new else [])"
    by (auto simp: numbered_photos_def filter_map o_def split_def filter_empty_conv)
  have b: "filter (\<lambda>ph. photo_listing ph = j) (filter (\<lambda>ph. photo_listing ph \<noteq> i) phs)
            = (if j = i then [] else filter (\<lambda>ph. photo_listing ph = j) phs)"
  proof (cases "j = i")
    case True
    then show ?thesis by (simp add: filter_empty_conv)
  next
    case False
    have "filter (\<lambda>x. photo_listing x \<noteq> i \<and> photo_listing x = j) phs = filter (\<lambda>ph. photo_listing ph = j) phs"
      by (rule filter_cong) (use False in auto)
    then show ?thesis using False by simp
  qed
  have "filter (\<lambda>ph. photo_listing ph = j) (filter (\<lambda>ph. photo_listing ph \<noteq> i) phs @ numbered_photos i new)
         = filter (\<lambda>ph. photo_listing ph = j) (filter (\<lambda>ph. photo_listing ph \<noteq> i) phs)
           @ filter (\<lambda>ph. photo_listing ph = j) (numbered_photos i new)"
    by (rule filter_append)
  also have "\<dots> = (if j = i then numbered_photos i new else filter (\<lambda>ph. photo_listing ph = j) phs)"
    unfolding a b by simp
  finally show ?thesis .
qed

lemma process_rows_photos:
  "process_rows env tb ts rows st = Inr st' \<Longrightarrow>
     photos_of (db st') j =
       (if j \<in> seen_in rows \<and> extract_photos (by_id (rows_pho tb) j) \<noteq> []
        then numbered_photos j (extract_photos (by_id (rows_pho tb) j))
        else photos_of (db st) j)"
proof (induction rows arbitrary: st)
  case Nil
  then show ?case by simp
next
  case (Cons r rs)
  then obtain st1 where s1: "process_row env tb ts r st = Inr st1"
    and s2: "process_rows env tb ts rs st1 = Inr st'"
    by (auto simp: bind_exn_Inr)
  note ih = Cons.IH[OF s2]
  show ?case
  proof (cases "counted r")
    case True
    from process_row_effect[OF s1 True] obtain x where
      p: "photos (db st1) =
       (let phs = extract_photos (by_id (rows_pho tb) (row_ident r)) in
        if phs \<noteq> [] then filter (\<lambda>ph. photo_listing ph \<noteq> row_ident r) (photos (db st)) @ numbered_photos (row_ident r) phs
        else photos (db st))"
      by blast
    have "photos_of (db st1) j =
       (if j = row_ident r \<and> extract_photos (by_id (rows_pho tb) j) \<noteq> []
        then numbered_photos j (extract_photos (by_id (rows_pho tb) j))
        else photos_of (db st) j)"
      unfolding photos_of_def p Let_def
      using photos_of_step[of j "row_ident r" "photos (db st)" "extract_photos (by_id (rows_pho tb) (row_ident r))"]
      by (auto split: if_splits)
    then show ?thesis using ih True by (auto simp: seen_in_Cons)
  next
    case False
    then have "st1 = st" using s1 by (simp add: process_row_skip)
    then show ?thesis using ih False by (simp add: seen_in_Cons)
  qed
qed

section \<open>Properties of a run\<close>

lemma import_tables_Inr:
  assumes "import_tables env tb info c = (Inr tot, c')"
  obtains st where
    "process_rows env tb (run_now info) (rows_ins tb)
        \<lparr>db = c, tick = 0, n_total = 0, added = 0, updated = 0, seen_ids = {}\<rparr> = Inr st"
    "listings c' = (if do_mark_sold info then listings (mark_sold (seen_ids st) (run_now info) (db st))
                    else listings (db st))"
    "photos c' = photos (db st)"
    "\<exists>t. fetch_logs c' = fetch_logs (db st) @
        [\<lparr>created_at = t, file_date = run_file_date info, source_url = base_url info,
          source_name = run_source_name info, items_total = t_total tot, items_added = t_added tot,
          items_updated = t_updated tot, items_marked_sold = t_sold tot,
          duration_seconds = duration info\<rparr>]"
    "t_total tot = n_total st" "t_added tot = added st" "t_updated tot = updated st"
    "t_sold tot = (if do_mark_sold info then length (filter (sold_qs (seen_ids st)) (listings (db st))) else 0)"
proof -
  from assms obtain stf ms where b: "atomic_body env tb info c = Inr (stf, ms)"
    and c': "c' = db stf"
    and tot: "tot = \<lparr>t_total = n_total stf, t_added = added stf, t_updated = updated stf, t_sold = ms\<rparr>"
    by (auto simp: import_tables_def atomic_def split: sum.splits prod.splits)
  from b obtain st where p: "process_rows env tb (run_now info) (rows_ins tb)
        \<lparr>db = c, tick = 0, n_total = 0, added = 0, updated = 0, seen_ids = {}\<rparr> = Inr st"
    by (auto simp: atomic_body_def bind_exn_Inr)
  show thesis
    apply (rule that[OF p])
    using b p unfolding c' tot
    by (auto simp: atomic_body_def bind_exn_Inr storage_op_Inr mark_sold_def write_log_def split: if_splits)
qed

lemma mark_sold_ids: "map centris_id (listings (mark_sold seen ts c)) = map centris_id (listings c)"
  by (simp add: mark_sold_def o_def)

lemma status_distinct: "STATUS_ACTIVE \<noteq> STATUS_SOLD"
  by (simp add: STATUS_ACTIVE_def STATUS_SOLD_def)

lemma import_tables_log:
  assumes "import_tables env tb info c = (Inr tot, c')"
  shows "\<exists>lg. fetch_logs c' = fetch_logs c @ [lg]"
proof -
  from import_tables_Inr[OF assms] obtain st where
    p: "process_rows env tb (run_now info) (rows_ins tb)
          \<lparr>db = c, tick = 0, n_total = 0, added = 0, updated = 0, seen_ids = {}\<rparr> = Inr st" and
    lg: "\<exists>t. fetch_logs c' = fetch_logs (db st) @
        [\<lparr>created_at = t, file_date = run_file_date info, source_url = base_url info,
          source_name = run_source_name info, items_total = t_total tot, items_added = t_added tot,
          items_updated = t_updated tot, items_marked_sold = t_sold tot,
          duration_seconds = duration info\<rparr>]"
    by blast
  show ?thesis using lg process_rows_counts[OF p] by auto
qed

text \<open>
  C10. For every run that completes, the number of rows seen is the number of counted
  rows of the primary table (non-empty, with a non-empty cleaned first field), and
  added plus updated equals it. The rows are counted, not the distinct ids: the number
  added is the number of distinct ids of the bundle that the catalog did not hold, every
  other counted row (a later row of the same id included) counts as updated, and the
  catalog ends with one entry per id. The log row written carries these counters.
\<close>

theorem counters_add_up:
  assumes "import_tables env tb info c = (Inr tot, c')"
  shows "t_total tot = length (filter counted (rows_ins tb))
       \<and> t_added tot + t_updated tot = t_total tot
       \<and> t_added tot = card (seen_in (rows_ins tb) - ids_of c)
       \<and> ids_of c' = ids_of c \<union> seen_in (rows_ins tb)
       \<and> (pk_unique c \<longrightarrow> pk_unique c')
       \<and> (\<exists>lg. fetch_logs c' = fetch_logs c @ [lg] \<and> items_total lg = t_total tot
                \<and> items_added lg = t_added tot \<and> items_updated lg = t_updated tot)"
proof -
  let ?st0 = "\<lparr>db = c, tick = 0, n_total = 0, added = 0, updated = 0, seen_ids = {}\<rparr>"
  from import_tables_Inr[OF assms] obtain st where
    p: "process_rows env tb (run_now info) (rows_ins tb) ?st0 = Inr st" and
    l: "listings c' = (if do_mark_sold info then listings (mark_sold (seen_ids st) (run_now info) (db st))
                    else listings (db st))" and
    lg: "\<exists>t. fetch_logs c' = fetch_logs (db st) @
        [\<lparr>created_at = t, file_date = run_file_date info, source_url = base_url info,
          source_name = run_source_name info, items_total = t_total tot, items_added = t_added tot,
          items_updated = t_updated tot, items_marked_sold = t_sold tot,
          duration_seconds = duration info\<rparr>]" and
    t: "t_total tot = n_total st" "t_added tot = added st" "t_updated tot = updated st"
    by blast
  note c1 = process_rows_counts[OF p]
  note c2 = process_rows_ids[OF p]
  have m: "map centris_id (listings c') = map centris_id (listings (db st))"
    using l by (simp add: mark_sold_ids)
  have ids: "ids_of c' = ids_of (db st)"
    using arg_cong[OF m, of set] by (simp add: ids_of_def)
  have pk: "pk_unique c' = pk_unique (db st)" by (simp add: pk_unique_def m)
  have "\<exists>lg. fetch_logs c' = fetch_logs c @ [lg] \<and> items_total lg = t_total tot
                \<and> items_added lg = t_added tot \<and> items_updated lg = t_updated tot"
    using lg c1 by auto
  then show ?thesis using c1 c2 t ids pk by simp
qed

text \<open>
  C1. For every run that completes with the retirement step enabled, the ids whose
  status is ACTIVE afterwards are exactly the cleaned non-empty ids of the primary
  table; every entry of a seen id is ACTIVE with no \<open>sold_at\<close> (whatever its status
  was before); and, the primary key being unique, every entry that was ACTIVE and was
  not seen is SOLD with \<open>sold_at\<close> equal to the run's timestamp. No entry is deleted.
\<close>

theorem active_set_after_run:
  assumes "import_tables env tb info c = (Inr tot, c')" and "do_mark_sold info"
  shows "active_ids c' = seen_in (rows_ins tb)
    \<and> (\<forall>l\<in>set (listings c'). centris_id l \<in> seen_in (rows_ins tb) \<longrightarrow>
          status l = STATUS_ACTIVE \<and> sold_at l = None)
    \<and> (pk_unique c \<longrightarrow>
         (\<forall>l\<in>set (listings c'). centris_id l \<in> active_ids c - seen_in (rows_ins tb) \<longrightarrow>
            status l = STATUS_SOLD \<and> sold_at l = Some (run_now info)))
    \<and> ids_of c \<subseteq> ids_of c'"
proof -
  let ?st0 = "\<lparr>db = c, tick = 0, n_total = 0, added = 0, updated = 0, seen_ids = {}\<rparr>"
  let ?seen = "seen_in (rows_ins tb)"
  let ?mark = "\<lambda>l. if sold_qs ?seen l then l\<lparr>status := STATUS_SOLD, sold_at := Some (run_now info)\<rparr> else l"
  from import_tables_Inr[OF assms(1)] obtain st where
    p: "process_rows env tb (run_now info) (rows_ins tb) ?st0 = Inr st" and
    l0: "listings c' = (if do_mark_sold info then listings (mark_sold (seen_ids st) (run_now info) (db st))
                    else listings (db st))"
    by blast
  have seen: "seen_ids st = ?seen" using process_rows_counts[OF p] by simp
  have l: "listings c' = map ?mark (listings (db st))"
    using l0 assms(2) seen by (simp add: mark_sold_def)
  note act = process_rows_active[OF p]
  note ids = process_rows_ids[OF p]
  have mark_cid: "\<And>l. centris_id (?mark l) = centris_id l" by simp
  have seen_kept: "\<And>l. centris_id l \<in> ?seen \<Longrightarrow> \<not> sold_qs ?seen l"
    by (simp add: sold_qs_def)
  have A: "active_ids c' = ?seen"
  proof (intro set_eqI iffI)
    fix i assume "i \<in> active_ids c'"
    then obtain l where lin: "l \<in> set (listings (db st))" and a: "status (?mark l) = STATUS_ACTIVE"
      and i: "i = centris_id (?mark l)"
      unfolding active_ids_def l by auto
    have "\<not> sold_qs ?seen l" using a status_distinct by (auto split: if_splits)
    moreover have "status l = STATUS_ACTIVE" using a status_distinct by (auto split: if_splits)
    ultimately show "i \<in> ?seen" using i by (auto simp: sold_qs_def split: if_splits)
  next
    fix i assume i: "i \<in> ?seen"
    then have "i \<in> ids_of (db st)" using ids by simp
    then obtain l0 where lin: "l0 \<in> set (listings (db st))" and c: "centris_id l0 = i"
      by (auto simp: ids_of_def)
    have sa: "status l0 = STATUS_ACTIVE" using act lin c i by blast
    have "\<not> sold_qs ?seen l0" using seen_kept[of l0] c i by simp
    then have k: "?mark l0 = l0" by simp
    have "?mark l0 \<in> set (listings c')" unfolding l set_map using lin by (rule imageI)
    then have "l0 \<in> set (listings c')" unfolding k .
    then have "l0 \<in> {l \<in> set (listings c'). status l = STATUS_ACTIVE}"
      using sa by simp
    then show "i \<in> active_ids c'" unfolding active_ids_def using c by blast
  qed
  have B: "\<forall>l\<in>set (listings c'). centris_id l \<in> ?seen \<longrightarrow> status l = STATUS_ACTIVE \<and> sold_at l = None"
  proof (intro ballI impI)
    fix l' assume "l' \<in> set (listings c')" and s: "centris_id l' \<in> ?seen"
    then obtain l0 where lin: "l0 \<in> set (listings (db st))" and e: "l' = ?mark l0"
      unfolding l by auto
    have c0: "centris_id l0 \<in> ?seen" using s e by (simp split: if_splits)
    then have "\<not> sold_qs ?seen l0" by (rule seen_kept)
    then have "l' = l0" using e by simp
    moreover have "status l0 = STATUS_ACTIVE \<and> sold_at l0 = None" using act lin c0 by blast
    ultimately show "status l' = STATUS_ACTIVE \<and> sold_at l' = None" by simp
  qed
  have C: "pk_unique c \<longrightarrow>
         (\<forall>l\<in>set (listings c'). centris_id l \<in> active_ids c - ?seen \<longrightarrow>
            status l = STATUS_SOLD \<and> sold_at l = Some (run_now info))"
  proof (intro impI ballI)
    fix l' assume pk: "pk_unique c" and "l' \<in> set (listings c')" and s: "centris_id l' \<in> active_ids c - ?seen"
    then obtain l0 where lin: "l0 \<in> set (listings (db st))" and e: "l' = ?mark l0"
      unfolding l by auto
    have c0: "centris_id l0 = centris_id l'" using e by (simp split: if_splits)
    have ns: "centris_id l0 \<notin> ?seen" using s c0 by simp
    have "l0 \<in> set (filter (\<lambda>l. centris_id l = centris_id l0) (listings (db st)))" using lin by simp
    then have "l0 \<in> set (filter (\<lambda>l. centris_id l = centris_id l0) (listings c))"
      using process_rows_frame[OF p ns] by simp
    then have l0c: "l0 \<in> set (listings c)" by simp
    from s c0 obtain la where la: "la \<in> set (listings c)" "status la = STATUS_ACTIVE" "centris_id la = centris_id l0"
      unfolding active_ids_def by auto
    have "la = l0" using pk la l0c unfolding pk_unique_def by (metis distinct_map inj_onD)
    then have "sold_qs ?seen l0" using la ns by (simp add: sold_qs_def)
    then show "status l' = STATUS_SOLD \<and> sold_at l' = Some (run_now info)" using e by simp
  qed
  have m: "map centris_id (listings c') = map centris_id (listings (db st))"
    unfolding l by (simp add: o_def)
  have D: "ids_of c \<subseteq> ids_of c'"
    using arg_cong[OF m, of set] ids by (auto simp: ids_of_def)
  show ?thesis using A B C D by blast
qed


theorem counters_add_up_witness:
  "fst (import_tables store_ok demo_bundle info_first catalog_before)
      = Inr \<lparr>t_total = 3, t_added = 1, t_updated = 2, t_sold = 1\<rparr>
   \<and> length (filter counted (rows_ins demo_bundle)) = 3
   \<and> card (seen_in (rows_ins demo_bundle) - ids_of catalog_before) = 1
   \<and> ids_of (snd (import_tables store_ok demo_bundle info_first catalog_before))
        = ids_of catalog_before \<union> seen_in (rows_ins demo_bundle)
   \<and> pk_unique (snd (import_tables store_ok demo_bundle info_first catalog_before))"
proof -
  have f: "fst (import_tables store_ok demo_bundle info_first catalog_before)
      = Inr \<lparr>t_total = 3, t_added = 1, t_updated = 2, t_sold = 1\<rparr>"
    by code_simp
  then have r: "import_tables store_ok demo_bundle info_first catalog_before
      = (Inr \<lparr>t_total = 3, t_added = 1, t_updated = 2, t_sold = 1\<rparr>,
         snd (import_tables store_ok demo_bundle info_first catalog_before))"
    by (metis prod.collapse)
  have pk: "pk_unique catalog_before" by code_simp
  show ?thesis using counters_add_up[OF r] f pk by simp
qed

theorem active_set_after_run_witness:
  "fst (import_tables store_ok demo_bundle info_first catalog_before)
      = Inr \<lparr>t_total = 3, t_added = 1, t_updated = 2, t_sold = 1\<rparr>
   \<and> do_mark_sold info_first \<and> pk_unique catalog_before
   \<and> active_ids catalog_before = {''1002''}
   \<and> seen_in (rows_ins demo_bundle) = {''1001'', ''1003''}
   \<and> active_ids (snd (import_tables store_ok demo_bundle info_first catalog_before)) = {''1001'', ''1003''}
   \<and> map (\<lambda>l. (centris_id l, status l, sold_at l))
          (listings (snd (import_tables store_ok demo_bundle info_first catalog_before)))
        = [(''1002'', ''SOLD'', Some 1000), (''1003'', ''ACTIVE'', None), (''1001'', ''ACTIVE'', None)]"
proof -
  have f: "fst (import_tables store_ok demo_bundle info_first catalog_before)
      = Inr \<lparr>t_total = 3, t_added = 1, t_updated = 2, t_sold = 1\<rparr>"
    by code_simp
  then have r: "import_tables store_ok demo_bundle info_first catalog_before
      = (Inr \<lparr>t_total = 3, t_added = 1, t_updated = 2, t_sold = 1\<rparr>,
         snd (import_tables store_ok demo_bundle info_first catalog_before))"
    by (metis prod.collapse)
  have m: "do_mark_sold info_first" by (simp add: info_first_def)
  have pk: "pk_unique catalog_before" by code_simp
  have a: "active_ids catalog_before = {''1002''}" by code_simp
  have s: "seen_in (rows_ins demo_bundle) = {''1001'', ''1003''}" by code_simp
  have l: "map (\<lambda>l. (centris_id l, status l, sold_at l))
          (listings (snd (import_tables store_ok demo_bundle info_first catalog_before)))
        = [(''1002'', ''SOLD'', Some 1000), (''1003'', ''ACTIVE'', None), (''1001'', ''ACTIVE'', None)]"
    by code_simp
  show ?thesis using active_set_after_run[OF r m] f m pk a s l by simp
qed

lemma enumerate_Suc_fst:
  "map (\<lambda>p. Suc (fst p)) (enumerate n xs) = [Suc n..<Suc (n + length xs)]"
proof (induction xs arbitrary: n)
  case Nil
  then show ?case by simp
next
  case (Cons a xs)
  have "[Suc n..<Suc (n + length (a # xs))] = Suc n # [Suc (Suc n)..<Suc (Suc n + length xs)]"
    by (subst upt_conv_Cons) simp_all
  then show ?case using Cons.IH[of "Suc n"] by simp
qed

lemma enumerate_snd_snd: "map (\<lambda>p. snd (snd p)) (enumerate n xs) = map snd xs"
  by (induction xs arbitrary: n) simp_all

lemma numbered_photos_seq:
  "map photo_sequence_no (numbered_photos i phs) = [1..<Suc (length phs)]"
  using enumerate_Suc_fst[of 0 phs] by (simp add: numbered_photos_def split_def o_def)

lemma numbered_photos_url: "map photo_url (numbered_photos i phs) = map snd phs"
  using enumerate_snd_snd[of 0 phs] by (simp add: numbered_photos_def split_def o_def)

lemma numbered_photos_listing: "\<forall>ph\<in>set (numbered_photos i phs). photo_listing ph = i"
  by (auto simp: numbered_photos_def)

text \<open>
  C5. For every run that completes and every listing id: when the id is seen in the run
  and extraction gives at least one photo, the stored photos of the id are exactly the
  extracted ones, numbered from 1; otherwise the stored photos of the id are what they
  were before the run. The numbering is 1..N in the order of extraction, and that order
  is the stable ascending sort of the collected pairs by their raw sequence.
\<close>

theorem photos_replaced_or_kept:
  assumes "import_tables env tb info c = (Inr tot, c')"
  shows "(\<forall>i. photos_of c' i =
            (if i \<in> seen_in (rows_ins tb) \<and> extract_photos (by_id (rows_pho tb) i) \<noteq> []
             then numbered_photos i (extract_photos (by_id (rows_pho tb) i))
             else photos_of c i))
     \<and> (\<forall>i phs. map photo_sequence_no (numbered_photos i phs) = [1..<Suc (length phs)]
            \<and> map photo_url (numbered_photos i phs) = map snd phs
            \<and> (\<forall>ph\<in>set (numbered_photos i phs). photo_listing ph = i))
     \<and> (\<forall>rs. sorted (map fst (extract_photos rs))
            \<and> (\<forall>k. filter (\<lambda>p. fst p = k) (extract_photos rs) = filter (\<lambda>p. fst p = k) (photo_pairs rs)))"
proof -
  let ?st0 = "\<lparr>db = c, tick = 0, n_total = 0, added = 0, updated = 0, seen_ids = {}\<rparr>"
  from import_tables_Inr[OF assms] obtain st where
    p: "process_rows env tb (run_now info) (rows_ins tb) ?st0 = Inr st" and
    ph: "photos c' = photos (db st)"
    by blast
  have "\<forall>i. photos_of c' i =
            (if i \<in> seen_in (rows_ins tb) \<and> extract_photos (by_id (rows_pho tb) i) \<noteq> []
             then numbered_photos i (extract_photos (by_id (rows_pho tb) i))
             else photos_of c i)"
    using process_rows_photos[OF p] ph by (simp add: photos_of_def)
  moreover have "\<forall>rs. sorted (map fst (extract_photos rs))
            \<and> (\<forall>k. filter (\<lambda>p. fst p = k) (extract_photos rs) = filter (\<lambda>p. fst p = k) (photo_pairs rs))"
    by (simp add: extract_photos_def sort_key_stable)
  ultimately show ?thesis
    using numbered_photos_seq numbered_photos_url numbered_photos_listing by blast
qed

theorem photos_replaced_or_kept_witness:
  "fst (import_tables store_ok demo_bundle info_first catalog_before)
      = Inr \<lparr>t_total = 3, t_added = 1, t_updated = 2, t_sold = 1\<rparr>
   \<and> photo_pairs (by_id (rows_pho demo_bundle) ''1001'') = [(2, ''http://a/2.jpg''), (1, ''http://a/1.jpg'')]
   \<and> photos_of (snd (import_tables store_ok demo_bundle info_first catalog_before)) ''1001''
        = [\<lparr>photo_listing = ''1001'', photo_sequence_no = 1, photo_url = ''http://a/1.jpg''\<rparr>,
           \<lparr>photo_listing = ''1001'', photo_sequence_no = 2, photo_url = ''http://a/2.jpg''\<rparr>]
   \<and> extract_photos (by_id (rows_pho demo_bundle) ''1003'') = []
   \<and> photos_of (snd (import_tables store_ok demo_bundle info_first catalog_before)) ''1003''
        = photos_of catalog_before ''1003''
   \<and> photos_of catalog_before ''1003''
        = [\<lparr>photo_listing = ''1003'', photo_sequence_no = 1, photo_url = ''http://old/1.jpg''\<rparr>]"
proof -
  have f: "fst (import_tables store_ok demo_bundle info_first catalog_before)
      = Inr \<lparr>t_total = 3, t_added = 1, t_updated = 2, t_sold = 1\<rparr>"
    by code_simp
  then have r: "import_tables store_ok demo_bundle info_first catalog_before
      = (Inr \<lparr>t_total = 3, t_added = 1, t_updated = 2, t_sold = 1\<rparr>,
         snd (import_tables store_ok demo_bundle info_first catalog_before))"
    by (metis prod.collapse)
  have s: "seen_in (rows_ins demo_bundle) = {''1001'', ''1003''}" by code_simp
  have p1: "photo_pairs (by_id (rows_pho demo_bundle) ''1001'') = [(2, ''http://a/2.jpg''), (1, ''http://a/1.jpg'')]"
    by code_simp
  have e1: "extract_photos (by_id (rows_pho demo_bundle) ''1001'') = [(1, ''http://a/1.jpg''), (2, ''http://a/2.jpg'')]"
    by code_simp
  have e3: "extract_photos (by_id (rows_pho demo_bundle) ''1003'') = []" by code_simp
  have n1: "numbered_photos ''1001'' [(1, ''http://a/1.jpg''), (2, ''http://a/2.jpg'')]
        = [\<lparr>photo_listing = ''1001'', photo_sequence_no = 1, photo_url = ''http://a/1.jpg''\<rparr>,
           \<lparr>photo_listing = ''1001'', photo_sequence_no = 2, photo_url = ''http://a/2.jpg''\<rparr>]"
    by code_simp
  have o: "photos_of catalog_before ''1003''
        = [\<lparr>photo_listing = ''1003'', photo_sequence_no = 1, photo_url = ''http://old/1.jpg''\<rparr>]"
    by code_simp
  note t = photos_replaced_or_kept[OF r, THEN conjunct1]
  have a: "photos_of (snd (import_tables store_ok demo_bundle info_first catalog_before)) ''1001''
        = [\<lparr>photo_listing = ''1001'', photo_sequence_no = 1, photo_url = ''http://a/1.jpg''\<rparr>,
           \<lparr>photo_listing = ''1001'', photo_sequence_no = 2, photo_url = ''http://a/2.jpg''\<rparr>]"
    using t[rule_format, of "''1001''"] s e1 n1 by simp
  have b: "photos_of (snd (import_tables store_ok demo_bundle info_first catalog_before)) ''1003''
        = photos_of catalog_before ''1003''"
    using t[rule_format, of "''1003''"] e3 by simp
  show ?thesis using f p1 a e3 b o by blast
qed

section \<open>Properties of the extraction\<close>

lemma set_dedup_first [simp]: "set (dedup_first xs) = set xs"
  by (induction xs rule: dedup_first.induct) auto

lemma distinct_dedup_first [simp]: "distinct (dedup_first xs)"
  by (induction xs rule: dedup_first.induct) auto

lemma unique_in_order_eq:
  "unique_in_order prox seen out = out @ dedup_first (filter (\<lambda>p. p \<noteq> [] \<and> p \<notin> seen) prox)"
proof (induction prox arbitrary: seen out)
  case Nil
  then show ?case by simp
next
  case (Cons p prox)
  show ?case
  proof (cases "p \<noteq> [] \<and> p \<notin> seen")
    case True
    have "filter (\<lambda>y. y \<noteq> p) (filter (\<lambda>q. q \<noteq> [] \<and> q \<notin> seen) prox)
            = filter (\<lambda>q. q \<noteq> [] \<and> q \<notin> insert p seen) prox"
      unfolding filter_filter by (rule filter_cong) auto
    then show ?thesis using True Cons.IH[of "insert p seen" "out @ [p]"] by simp
  next
    case False
    then show ?thesis using Cons.IH[of seen out] by auto
  qed
qed

lemma extract_proximites_snd:
  "snd (extract_proximites a rows) = dedup_first (filter (\<lambda>p. p \<noteq> []) (prox_items a rows))"
  by (simp add: extract_proximites_def prox_items_def unique_in_order_eq Let_def)

lemma build_caracteristiques_snd:
  "snd (build_caracteristiques rows) =
     map (\<lambda>r. snd (carac_piece r)) (filter (\<lambda>r. length r \<ge> 3 \<and> clean (r ! 1) \<noteq> ''PROX'') rows)"
proof -
  have "filter (\<lambda>r. \<not> length r < 3 \<and> clean (r ! 1) \<noteq> ''PROX'') rows
          = filter (\<lambda>r. length r \<ge> 3 \<and> clean (r ! 1) \<noteq> ''PROX'') rows"
    by (rule filter_cong) auto
  then show ?thesis by (simp add: build_caracteristiques_def Let_def)
qed

lemma extract_row_Inr:
  assumes "extract_row tb row ident = Inr x"
  shows "x_proximites_arr x = snd (extract_proximites (or_empty (extract_addenda (addenda tb) ident)) (by_id (rows_car tb) ident))"
    and "x_car_arr x = snd (build_caracteristiques (by_id (rows_car tb) ident))"
    and "\<exists>u. extract_units (by_id (rows_uni tb) ident) (by_id (rows_pie tb) ident) = Inr (x_pieces x, x_chambres x, u)"
    and "x_descr x = or_empty (extract_description (by_id (rows_rem tb) ident))"
  using assms by (auto simp: extract_row_def bind_exn_Inr Let_def)

text \<open>
  C3, as the code has it. For every record extracted, the proximity list is the items
  found (in the rows of the proximity category, else in the addenda text) without the
  empty ones, each kept at its first occurrence and in that order, so it has no
  duplicate. The characteristics list has one pair per characteristics row of three
  fields or more outside the proximity category, in the order of the rows; it is not
  deduplicated.
\<close>

theorem lists_of_a_record:
  assumes "extract_row tb row ident = Inr x"
  shows "x_proximites_arr x =
           dedup_first (filter (\<lambda>p. p \<noteq> [])
             (prox_items (or_empty (extract_addenda (addenda tb) ident)) (by_id (rows_car tb) ident)))
       \<and> distinct (x_proximites_arr x)
       \<and> x_car_arr x =
           map (\<lambda>r. snd (carac_piece r))
             (filter (\<lambda>r. length r \<ge> 3 \<and> clean (r ! 1) \<noteq> ''PROX'') (by_id (rows_car tb) ident))"
  using extract_row_Inr(1,2)[OF assms]
  by (simp add: extract_proximites_snd build_caracteristiques_snd)

theorem lists_of_a_record_witness:
  "(case extract_row tables_twice [''1001''] ''1001'' of
      Inl e \<Rightarrow> False
    | Inr x \<Rightarrow> x_proximites_arr x = [''Autoroute'']
             \<and> prox_items [] (by_id (rows_car tables_twice) ''1001'') = [''Autoroute'', ''Autoroute'']
             \<and> distinct (x_proximites_arr x)
             \<and> length (x_car_arr x) = 2)"
proof -
  obtain x where x: "extract_row tables_twice [''1001''] ''1001'' = Inr x"
    by (cases "extract_row tables_twice [''1001''] ''1001''") (simp_all, code_simp)
  have a: "or_empty (extract_addenda (addenda tables_twice) ''1001'') = []" by code_simp
  have p: "prox_items [] (by_id (rows_car tables_twice) ''1001'') = [''Autoroute'', ''Autoroute'']"
    by code_simp
  have k: "length (filter (\<lambda>r. length r \<ge> 3 \<and> clean (r ! 1) \<noteq> ''PROX'') (by_id (rows_car tables_twice) ''1001'')) = 2"
    by code_simp
  show ?thesis using lists_of_a_record[OF x] x a p k by simp
qed

text \<open>
  C3 as stated fails on the characteristics list: a bundle that lists the same
  characteristic twice for a listing gives a record whose list holds the pair twice.
\<close>

theorem caracteristiques_repeat:
  "(case extract_row tables_twice [''1001''] ''1001'' of
      Inl e \<Rightarrow> False
    | Inr x \<Rightarrow> x_car_arr x = [(''All'' @ [CHR 0xE9] @ ''e'', ''Non pav'' @ [CHR 0xE9]),
                               (''All'' @ [CHR 0xE9] @ ''e'', ''Non pav'' @ [CHR 0xE9])]
             \<and> \<not> distinct (x_car_arr x))"
  by code_simp

lemma decorate_Inr:
  "decorate f xs = Inr ks \<Longrightarrow> map snd ks = xs \<and> (\<forall>p\<in>set ks. f (snd p) = Inr (fst p))"
proof (induction xs arbitrary: ks)
  case Nil
  then show ?case by simp
next
  case (Cons x xs)
  then show ?case by (auto split: sum.splits)
qed

lemma decorate_Inl:
  "(\<exists>e. decorate f xs = Inl e) \<longleftrightarrow> (\<exists>x\<in>set xs. \<exists>e. f x = Inl e)"
proof (induction xs)
  case Nil
  then show ?case by simp
next
  case (Cons x xs)
  show ?case
  proof (cases "f x")
    case (Inl e)
    then show ?thesis by auto
  next
    case (Inr k)
    then show ?thesis using Cons.IH by (cases "decorate f xs") auto
  qed
qed

lemma py_sorted_Inl:
  "(\<exists>e. py_sorted f xs = Inl e) \<longleftrightarrow> (\<exists>x\<in>set xs. \<exists>e. f x = Inl e)"
  using decorate_Inl[of f xs] by (cases "decorate f xs") (auto simp: py_sorted_def)

lemma find_filter_hd: "find P xs = (case filter P xs of [] \<Rightarrow> None | y # _ \<Rightarrow> Some y)"
  by (induction xs) auto

lemma find_stable:
  fixes ks :: "(int \<times> 'a) list"
  assumes "\<forall>p\<in>set ks. P (snd p) \<longrightarrow> fst p = k"
  shows "find P (map snd (sort_key fst ks)) = find P (map snd ks)"
proof -
  have a: "\<And>L. set L = set ks \<Longrightarrow>
             filter P (map snd L) = map snd (filter (\<lambda>p. P (snd p)) (filter (\<lambda>p. fst p = k) L))"
  proof -
    fix L :: "(int \<times> 'a) list" assume s: "set L = set ks"
    have "filter (\<lambda>p. P (snd p)) (filter (\<lambda>p. fst p = k) L) = filter (\<lambda>p. P (snd p)) L"
      unfolding filter_filter by (rule filter_cong) (use assms s in auto)
    then show "filter P (map snd L) = map snd (filter (\<lambda>p. P (snd p)) (filter (\<lambda>p. fst p = k) L))"
      by (simp add: filter_map o_def)
  qed
  have "filter P (map snd (sort_key fst ks)) = filter P (map snd ks)"
    using a[of "sort_key fst ks"] a[of ks] by (simp add: sort_key_stable)
  then show ?thesis by (simp add: find_filter_hd)
qed

lemma py_int_one: "py_int ''1'' = Inr 1"
  by code_simp

lemma unit_key_one: "unit_key r = Inr k \<Longrightarrow> clean (r ! 1) = ''1'' \<Longrightarrow> k = 1"
  using py_int_one
  by (auto simp: unit_key_def bind_exn_def py_index_def py_int_or_def split: if_splits)

lemma principal_unit_sorted:
  assumes "py_sorted unit_key units_rows = Inr srt"
  shows "principal_unit units_rows = find (\<lambda>r. clean (r ! 1) = ''1'') units_rows"
proof -
  from assms obtain ks where d: "decorate unit_key units_rows = Inr ks"
    and s: "srt = map snd (sort_key fst ks)"
    by (auto simp: py_sorted_def split: sum.splits)
  note k = decorate_Inr[OF d]
  have "\<forall>p\<in>set ks. clean (snd p ! 1) = ''1'' \<longrightarrow> fst p = 1"
    using k unit_key_one by blast
  from find_stable[OF this] have "find (\<lambda>r. clean (r ! 1) = ''1'') srt = find (\<lambda>r. clean (r ! 1) = ''1'') units_rows"
    using s k by simp
  then show ?thesis using assms by (simp add: principal_unit_def)
qed

lemma principal_unit_unsorted:
  assumes "py_sorted unit_key units_rows = Inl e"
  shows "principal_unit units_rows = (case units_rows of [] \<Rightarrow> None | r # _ \<Rightarrow> Some r)"
  using assms by (simp add: principal_unit_def)

text \<open>
  C4, as the code has it. When every unit-details row has a sequence field that is empty
  or an integer, the sort succeeds and the principal unit is the first row, in the order
  of the table, whose cleaned sequence is \<^verbatim>\<open>'1'\<close>; when there is no such row there is no
  principal unit, and total rooms and bedrooms are null. When the sort fails (a row has
  no sequence field, or one that \<^verbatim>\<open>int\<close> rejects) the principal unit is the first row of
  the table.
\<close>

theorem principal_unit_selection:
  "(\<forall>srt. py_sorted unit_key units_rows = Inr srt \<longrightarrow>
       principal_unit units_rows = find (\<lambda>r. clean (r ! 1) = ''1'') units_rows)
   \<and> (\<forall>srt. py_sorted unit_key units_rows = Inr srt \<and> (\<forall>r\<in>set units_rows. clean (r ! 1) \<noteq> ''1'') \<longrightarrow>
       principal_unit units_rows = None
       \<and> extract_units units_rows pieces_rows = Inr (None, None, count_sdb pieces_rows))
   \<and> (\<forall>e. py_sorted unit_key units_rows = Inl e \<longrightarrow>
       principal_unit units_rows = (case units_rows of [] \<Rightarrow> None | r # _ \<Rightarrow> Some r))
   \<and> ((\<exists>e. py_sorted unit_key units_rows = Inl e) \<longleftrightarrow>
       (\<exists>r\<in>set units_rows. length r < 2 \<or> (clean (r ! 1) \<noteq> [] \<and> (\<exists>e. py_int (clean (r ! 1)) = Inl e))))"
proof (intro conjI allI impI)
  fix srt assume "py_sorted unit_key units_rows = Inr srt"
  then show "principal_unit units_rows = find (\<lambda>r. clean (r ! 1) = ''1'') units_rows"
    by (rule principal_unit_sorted)
next
  fix srt assume a: "py_sorted unit_key units_rows = Inr srt \<and> (\<forall>r\<in>set units_rows. clean (r ! 1) \<noteq> ''1'')"
  then have "find (\<lambda>r. clean (r ! 1) = ''1'') units_rows = None" by (simp add: find_None_iff)
  then show n: "principal_unit units_rows = None" using principal_unit_sorted a by metis
  then show "extract_units units_rows pieces_rows = Inr (None, None, count_sdb pieces_rows)"
    by (simp add: extract_units_def)
next
  fix e assume "py_sorted unit_key units_rows = Inl e"
  then show "principal_unit units_rows = (case units_rows of [] \<Rightarrow> None | r # _ \<Rightarrow> Some r)"
    by (rule principal_unit_unsorted)
next
  have "\<And>r. (\<exists>e. unit_key r = Inl e) \<longleftrightarrow>
           (length r < 2 \<or> (clean (r ! 1) \<noteq> [] \<and> (\<exists>e. py_int (clean (r ! 1)) = Inl e)))"
    by (auto simp: unit_key_def bind_exn_def py_index_def py_int_or_def)
  then show "(\<exists>e. py_sorted unit_key units_rows = Inl e) \<longleftrightarrow>
       (\<exists>r\<in>set units_rows. length r < 2 \<or> (clean (r ! 1) \<noteq> [] \<and> (\<exists>e. py_int (clean (r ! 1)) = Inl e)))"
    unfolding py_sorted_Inl by simp
qed

theorem principal_unit_selection_witness:
  "py_sorted unit_key units_mixed =
       Inr [[''1001'', ''1'', [], ''7'', ''4''], [''1001'', ''1'', [], ''6'', ''2''],
            [''1001'', ''3'', [], ''9'', ''9''], [''1001'', [], [], ''8'', ''8'']]
   \<and> principal_unit units_mixed = Some [''1001'', ''1'', [], ''7'', ''4'']
   \<and> py_sorted unit_key unit_two = Inr unit_two
   \<and> principal_unit unit_two = None
   \<and> extract_units unit_two [] = Inr (None, None, None)
   \<and> py_sorted unit_key unit_unnumbered = Inl ValueError
   \<and> principal_unit unit_unnumbered = Some [''1001'', ''A'', [], ''5'', ''3'']"
proof -
  have s1: "py_sorted unit_key units_mixed =
       Inr [[''1001'', ''1'', [], ''7'', ''4''], [''1001'', ''1'', [], ''6'', ''2''],
            [''1001'', ''3'', [], ''9'', ''9''], [''1001'', [], [], ''8'', ''8'']]"
    by code_simp
  have f1: "find (\<lambda>r. clean (r ! 1) = ''1'') units_mixed = Some [''1001'', ''1'', [], ''7'', ''4'']"
    by code_simp
  have s2: "py_sorted unit_key unit_two = Inr unit_two" by code_simp
  have n2: "\<forall>r\<in>set unit_two. clean (r ! 1) \<noteq> ''1''" by code_simp
  have c2: "count_sdb [] = None" by code_simp
  have s3: "py_sorted unit_key unit_unnumbered = Inl ValueError" by code_simp
  have h3: "(case unit_unnumbered of [] \<Rightarrow> None | r # _ \<Rightarrow> Some r) = Some [''1001'', ''A'', [], ''5'', ''3'']"
    by (simp add: unit_unnumbered_def)
  note t1 = principal_unit_selection[of units_mixed "[]", THEN conjunct1, rule_format, OF s1]
  note t2 = principal_unit_selection[of unit_two "[]", THEN conjunct2, THEN conjunct1, rule_format, OF conjI[OF s2 n2]]
  note t3 = principal_unit_selection[of unit_unnumbered "[]", THEN conjunct2, THEN conjunct2, THEN conjunct1, rule_format, OF s3]
  show ?thesis using s1 f1 s2 c2 s3 h3 t1 t2 t3 by simp
qed

text \<open>
  C4 as stated fails: a listing whose only unit-details row has sequence 2 (and 5
  rooms, 3 bedrooms) sorts without error, has no principal unit, and gets null counts.
\<close>

theorem no_fallback_without_unit_one:
  "unit_two = [[''1001'', ''2'', [], ''5'', ''3'']]
   \<and> py_sorted unit_key unit_two = Inr unit_two
   \<and> principal_unit unit_two = None
   \<and> extract_units unit_two [] = Inr (None, None, None)"
  by code_simp

lemma ordered_remarques_order:
  "(\<forall>e. py_sorted remarque_key (chosen_remarques rows) = Inl e \<longrightarrow>
       ordered_remarques rows = chosen_remarques rows)
   \<and> (\<forall>ks. decorate remarque_key (chosen_remarques rows) = Inr ks \<longrightarrow>
       ordered_remarques rows = map snd (sort_key fst ks)
       \<and> sorted (map fst (sort_key fst ks))
       \<and> (\<forall>k. filter (\<lambda>p. fst p = k) (sort_key fst ks) = filter (\<lambda>p. fst p = k) ks))"
  by (auto simp: ordered_remarques_def py_sorted_def Let_def sort_key_stable)

lemma description_import_centris:
  "extract_description remarks_unordered = Some ''Hello big World''
   \<and> extract_description remarks_unnumbered = Some ''World Hello''"
  by code_simp

text \<open>
  C8 on parse\_centris\_zip.py. The rows flagged F are ordered by sequence and joined
  with single spaces by both files, but the script's pattern asks for a backslash after
  \<^verbatim>\<open><br\<close>, so the line break of the text stays in its description; the command
  replaces it by a space.
\<close>

theorem description_zip_keeps_line_breaks:
  "remarks_unordered = [[''1001'', ''2'', ''F'', [], [], [], ''World''],
                        [''1001'', ''1'', ''A'', [], [], [], ''ignored''],
                        [''1001'', ''1'', ''F'', [], [], [], ''Hello<br>big'']]
   \<and> extract_description_zip remarks_unordered = Some ''Hello<br>big World''
   \<and> extract_description remarks_unordered = Some ''Hello big World''"
  by code_simp

lemma proximites_import_centris:
  "snd (extract_proximites addenda_sentence []) = [''Autoroute'', [CHR 0xC9] @ ''cole primaire'']"
  by code_simp

text \<open>
  C6 on parse\_centris\_zip.py. On the addenda sentence of the specification, with no
  characteristics row, the command gives the two items; the script's pattern asks for
  a backslash after the marker's first letter, finds nothing and returns \<^verbatim>\<open>None\<close>.
\<close>

theorem proximites_zip_miss_the_marker:
  "addenda_sentence = [CHR 0xC0] @ '' proximit'' @ [CHR 0xE9] @ '': Autoroute, '' @ [CHR 0xC9] @ ''cole primaire''
   \<and> extract_proximites_zip addenda_sentence [] = None
   \<and> snd (extract_proximites addenda_sentence []) = [''Autoroute'', [CHR 0xC9] @ ''cole primaire'']"
  by code_simp

section \<open>Atomicity of a run\<close>

lemma storage_op_ticks:
  assumes "storage_op env st f = Inr st'"
  shows "tick st' = Suc (tick st) \<and> \<not> op_fails env (tick st)"
  using assms by (auto simp: storage_op_Inr)

lemma process_row_ticks:
  assumes "process_row env tb ts row st = Inr st'"
  shows "tick st \<le> tick st' \<and> (\<forall>k. tick st \<le> k \<and> k < tick st' \<longrightarrow> \<not> op_fails env k)"
proof (cases "counted row")
  case False
  then show ?thesis using assms by (auto simp: process_row_skip)
next
  case True
  from process_row_Inr[OF assms True] obtain x st1 where
    u: "upsert env ts (row_ident row) x
        (st\<lparr>n_total := n_total st + 1, seen_ids := insert (row_ident row) (seen_ids st)\<rparr>) = Inr st1" and
    r: "replace_photos env (row_ident row) (extract_photos (by_id (rows_pho tb) (row_ident row))) st1 = Inr st'"
    by blast
  have a: "tick st1 = tick st + 2 \<and> \<not> op_fails env (tick st) \<and> \<not> op_fails env (Suc (tick st))"
    using u by (auto simp: upsert_def bind_exn_Inr storage_op_Inr split: option.splits)
  have b: "(tick st' = tick st1) \<or> (tick st' = tick st1 + 2 \<and> \<not> op_fails env (tick st1) \<and> \<not> op_fails env (Suc (tick st1)))"
    using r by (auto simp: replace_photos_def bind_exn_Inr storage_op_Inr split: if_splits)
  show ?thesis
  proof (intro conjI allI impI)
    show "tick st \<le> tick st'" using a b by auto
  next
    fix k assume k: "tick st \<le> k \<and> k < tick st'"
    then consider "k = tick st" | "k = Suc (tick st)" | "k = tick st1" "tick st' = tick st1 + 2" | "k = Suc (tick st1)" "tick st' = tick st1 + 2"
      using a b by (auto simp: less_Suc_eq)
    then show "\<not> op_fails env k" using a b by cases auto
  qed
qed

lemma process_rows_ticks:
  "process_rows env tb ts rows st = Inr st' \<Longrightarrow>
     tick st \<le> tick st' \<and> (\<forall>k. tick st \<le> k \<and> k < tick st' \<longrightarrow> \<not> op_fails env k)"
proof (induction rows arbitrary: st)
  case Nil
  then show ?case by auto
next
  case (Cons r rs)
  then obtain st1 where s1: "process_row env tb ts r st = Inr st1"
    and s2: "process_rows env tb ts rs st1 = Inr st'"
    by (auto simp: bind_exn_Inr)
  note a = process_row_ticks[OF s1]
  note b = Cons.IH[OF s2]
  show ?case
  proof (intro conjI allI impI)
    show "tick st \<le> tick st'" using a b by simp
  next
    fix k assume "tick st \<le> k \<and> k < tick st'"
    then have "(tick st \<le> k \<and> k < tick st1) \<or> (tick st1 \<le> k \<and> k < tick st')" by auto
    then show "\<not> op_fails env k" using a b by blast
  qed
qed

lemma atomic_body_ticks:
  assumes "atomic_body env tb info c = Inr (st, ms)"
  shows "\<forall>k<tick st. \<not> op_fails env k"
proof -
  let ?st0 = "\<lparr>db = c, tick = 0, n_total = 0, added = 0, updated = 0, seen_ids = {}\<rparr>"
  from assms have "\<exists>st1. process_rows env tb (run_now info) (rows_ins tb) ?st0 = Inr st1
      \<and> ((\<not> op_fails env (tick st1) \<and> \<not> op_fails env (Suc (tick st1)) \<and> tick st = Suc (Suc (tick st1)))
          \<or> (\<not> op_fails env (tick st1) \<and> tick st = Suc (tick st1)))"
    by (auto simp: atomic_body_def bind_exn_Inr storage_op_Inr split: if_splits)
  then obtain st1 where
    p: "process_rows env tb (run_now info) (rows_ins tb) ?st0 = Inr st1" and
    m: "(\<not> op_fails env (tick st1) \<and> \<not> op_fails env (Suc (tick st1)) \<and> tick st = Suc (Suc (tick st1)))
          \<or> (\<not> op_fails env (tick st1) \<and> tick st = Suc (tick st1))"
    by blast
  have a: "\<forall>k. k < tick st1 \<longrightarrow> \<not> op_fails env k" using process_rows_ticks[OF p] by simp
  show ?thesis
  proof (intro allI impI)
    fix k assume "k < tick st"
    then have "k < tick st1 \<or> k = tick st1 \<or> (k = Suc (tick st1) \<and> tick st = Suc (Suc (tick st1)))"
      using m by (auto simp: less_Suc_eq)
    then show "\<not> op_fails env k" using a m by auto
  qed
qed

text \<open>
  C2. The upserts, the photo replacements, the retirement and the write of the log row
  are all storage operations of the one block under \<^verbatim>\<open>transaction.atomic()\<close>. When the
  block raises (an extraction that raises, or any storage operation that fails), the
  import returns the exception with the catalog exactly as it was before the run, the
  table of log rows included; so does \<^verbatim>\<open>handle\<close> whenever it fails. When the block
  completes, none of the operations it issued has failed and exactly one log row has
  been added.
\<close>

theorem failed_run_rolls_back:
  "(\<forall>e. atomic_body env tb info c = Inl e \<longrightarrow> import_tables env tb info c = (Inl e, c))
   \<and> (\<forall>e c'. import_tables env tb info c = (Inl e, c') \<longrightarrow> c' = c)
   \<and> (\<forall>st ms. atomic_body env tb info c = Inr (st, ms) \<longrightarrow>
         (\<forall>k<tick st. \<not> op_fails env k)
         \<and> (\<exists>lg. fetch_logs (db st) = fetch_logs c @ [lg])
         \<and> import_tables env tb info c =
             (Inr \<lparr>t_total = n_total st, t_added = added st, t_updated = updated st, t_sold = ms\<rparr>, db st))
   \<and> (\<forall>e c' evs. handle nets ymd read_bundle env opts now_ts today elapsed c = (Inl e, c', evs) \<longrightarrow> c' = c)"
proof -
  have A: "\<forall>e. atomic_body env tb info c = Inl e \<longrightarrow> import_tables env tb info c = (Inl e, c)"
    by (simp add: import_tables_def atomic_def)
  have B: "\<forall>e c'. import_tables env tb info c = (Inl e, c') \<longrightarrow> c' = c"
    by (auto simp: import_tables_def atomic_def split: sum.splits prod.splits)
  have C: "\<forall>st ms. atomic_body env tb info c = Inr (st, ms) \<longrightarrow>
         (\<forall>k<tick st. \<not> op_fails env k)
         \<and> (\<exists>lg. fetch_logs (db st) = fetch_logs c @ [lg])
         \<and> import_tables env tb info c =
             (Inr \<lparr>t_total = n_total st, t_added = added st, t_updated = updated st, t_sold = ms\<rparr>, db st)"
  proof (intro allI impI)
    fix st ms assume a: "atomic_body env tb info c = Inr (st, ms)"
    have i: "import_tables env tb info c =
             (Inr \<lparr>t_total = n_total st, t_added = added st, t_updated = updated st, t_sold = ms\<rparr>, db st)"
      using a by (simp add: import_tables_def atomic_def)
    have "\<exists>lg. fetch_logs (db st) = fetch_logs c @ [lg]" by (rule import_tables_log[OF i])
    then show "(\<forall>k<tick st. \<not> op_fails env k)
         \<and> (\<exists>lg. fetch_logs (db st) = fetch_logs c @ [lg])
         \<and> import_tables env tb info c =
             (Inr \<lparr>t_total = n_total st, t_added = added st, t_updated = updated st, t_sold = ms\<rparr>, db st)"
      using atomic_body_ticks[OF a] i by blast
  qed
  have D: "\<forall>e c' evs. handle nets ymd read_bundle env opts now_ts today elapsed c = (Inl e, c', evs) \<longrightarrow> c' = c"
  proof (intro allI impI)
    fix e c' evs assume h: "handle nets ymd read_bundle env opts now_ts today elapsed c = (Inl e, c', evs)"
    have "\<And>tb info r c''. import_tables env tb info c = (r, c'') \<Longrightarrow> (\<exists>e. r = Inl e) \<Longrightarrow> c'' = c"
      by (auto simp: import_tables_def atomic_def split: sum.splits prod.splits)
    then show "c' = c"
      using h by (auto simp: handle_def Let_def split: prod.splits option.splits sum.splits)
  qed
  show ?thesis using A B C D by blast
qed


theorem failed_run_rolls_back_witness:
  "import_tables (store_failing 11) demo_bundle info_first catalog_before = (Inl DatabaseError, catalog_before)
   \<and> import_tables (store_failing 10) demo_bundle info_first catalog_before = (Inl DatabaseError, catalog_before)
   \<and> import_tables (store_failing 2) demo_bundle info_first catalog_before = (Inl DatabaseError, catalog_before)
   \<and> import_tables store_ok bundle_bad_price info_first catalog_before = (Inl ValueError, catalog_before)
   \<and> (case process_rows store_ok bundle_bad_price 1000 [hd (rows_ins bundle_bad_price)]
              \<lparr>db = catalog_before, tick = 0, n_total = 0, added = 0, updated = 0, seen_ids = {}\<rparr> of
         Inl e \<Rightarrow> False
       | Inr st \<Rightarrow> map centris_id (listings (db st)) = [''1002'', ''1003'', ''1001''])
   \<and> (case atomic_body store_ok demo_bundle info_first catalog_before of
         Inl e \<Rightarrow> False
       | Inr (st, ms) \<Rightarrow> tick st = 12 \<and> length (fetch_logs (db st)) = 1)
   \<and> handle (\<lambda>n. net_listed) ymd_plain read_demo (store_failing 11) opts_plain 1000 10 2 catalog_before
        = (Inl DatabaseError, catalog_before,
           [GetIndex ''http://h/centris/'', Download ''http://h/centris/NOMADESMARKETING0009.zip''])"
proof -
  have f11: "atomic_body (store_failing 11) demo_bundle info_first catalog_before = Inl DatabaseError"
    by code_simp
  have f10: "atomic_body (store_failing 10) demo_bundle info_first catalog_before = Inl DatabaseError"
    by code_simp
  have f2: "atomic_body (store_failing 2) demo_bundle info_first catalog_before = Inl DatabaseError"
    by code_simp
  have fv: "atomic_body store_ok bundle_bad_price info_first catalog_before = Inl ValueError"
    by code_simp
  have p: "case process_rows store_ok bundle_bad_price 1000 [hd (rows_ins bundle_bad_price)]
              \<lparr>db = catalog_before, tick = 0, n_total = 0, added = 0, updated = 0, seen_ids = {}\<rparr> of
         Inl e \<Rightarrow> False
       | Inr st \<Rightarrow> map centris_id (listings (db st)) = [''1002'', ''1003'', ''1001'']"
    by code_simp
  have ok: "case atomic_body store_ok demo_bundle info_first catalog_before of
         Inl e \<Rightarrow> False
       | Inr (st, ms) \<Rightarrow> tick st = 12 \<and> length (fetch_logs (db st)) = 1"
    by code_simp
  have h1: "fst (handle (\<lambda>n. net_listed) ymd_plain read_demo (store_failing 11) opts_plain 1000 10 2 catalog_before)
        = Inl DatabaseError"
    by code_simp
  have h2: "snd (snd (handle (\<lambda>n. net_listed) ymd_plain read_demo (store_failing 11) opts_plain 1000 10 2 catalog_before))
        = [GetIndex ''http://h/centris/'', Download ''http://h/centris/NOMADESMARKETING0009.zip'']"
    by code_simp
  note t = failed_run_rolls_back[THEN conjunct1, rule_format]
  note th = failed_run_rolls_back[THEN conjunct2, THEN conjunct2, THEN conjunct2, rule_format,
              of "\<lambda>n. net_listed" ymd_plain read_demo "store_failing 11" opts_plain 1000 10 2 catalog_before
                 DatabaseError
                 "fst (snd (handle (\<lambda>n. net_listed) ymd_plain read_demo (store_failing 11) opts_plain 1000 10 2 catalog_before))"
                 "[GetIndex ''http://h/centris/'', Download ''http://h/centris/NOMADESMARKETING0009.zip'']"]
  have h: "handle (\<lambda>n. net_listed) ymd_plain read_demo (store_failing 11) opts_plain 1000 10 2 catalog_before
        = (Inl DatabaseError,
           fst (snd (handle (\<lambda>n. net_listed) ymd_plain read_demo (store_failing 11) opts_plain 1000 10 2 catalog_before)),
           [GetIndex ''http://h/centris/'', Download ''http://h/centris/NOMADESMARKETING0009.zip''])"
    using h1 h2 by (metis prod.collapse)
  have h': "handle (\<lambda>n. net_listed) ymd_plain read_demo (store_failing 11) opts_plain 1000 10 2 catalog_before
        = (Inl DatabaseError, catalog_before,
           [GetIndex ''http://h/centris/'', Download ''http://h/centris/NOMADESMARKETING0009.zip''])"
    using th[OF h] h by simp
  show ?thesis using t[OF f11] t[OF f10] t[OF f2] t[OF fv] p ok h' by simp
qed

section \<open>Importing the same bundle twice\<close>

lemma last_row_for_Some:
  "last_row_for i rows = Some r \<Longrightarrow> counted r \<and> row_ident r = i \<and> r \<in> set rows"
  by (induction rows) (auto split: option.splits if_splits)

lemma last_row_for_None: "last_row_for i rows = None \<longleftrightarrow> i \<notin> seen_in rows"
  by (induction rows) (auto simp: seen_in_Cons split: option.splits)

lemma same_entry_fresh:
  assumes "overwrite l1 x t1 = l1" "overwrite l2 x t2 = l2"
    and "centris_id l2 = centris_id l1" "slug l2 = slug l1" "first_seen_at l2 = first_seen_at l1"
  shows "same_entry l1 l2"
proof -
  have "same_entry (overwrite l1 x t1) (overwrite l2 x t2)"
    using assms(3-5) by (cases l1; cases l2) (simp add: same_entry_def overwrite_def)
  then show ?thesis by (simp only: assms(1,2))
qed

lemma same_entry_refl [simp]: "same_entry l l"
  by (simp add: same_entry_def)

lemma process_rows_last:
  "process_rows env tb ts rows st = Inr st' \<Longrightarrow>
     \<forall>l\<in>set (listings (db st')). \<forall>r. last_row_for (centris_id l) rows = Some r \<longrightarrow>
        (\<exists>x. extract_row tb r (centris_id l) = Inr x \<and> overwrite l x ts = l \<and> ensure_slug env l = l)"
proof (induction rows arbitrary: st)
  case Nil
  then show ?case by simp
next
  case (Cons r rs)
  then obtain st1 where s1: "process_row env tb ts r st = Inr st1"
    and s2: "process_rows env tb ts rs st1 = Inr st'"
    by (auto simp: bind_exn_Inr)
  note ih = Cons.IH[OF s2]
  show ?case
  proof (intro ballI allI impI)
    fix l r0 assume l: "l \<in> set (listings (db st'))" and lr: "last_row_for (centris_id l) (r # rs) = Some r0"
    show "\<exists>x. extract_row tb r0 (centris_id l) = Inr x \<and> overwrite l x ts = l \<and> ensure_slug env l = l"
    proof (cases "last_row_for (centris_id l) rs")
      case (Some r')
      then have "r0 = r'" using lr by simp
      then show ?thesis using ih l Some by blast
    next
      case None
      then have cr: "counted r" and i: "row_ident r = centris_id l" and r0: "r0 = r"
        using lr by (auto split: if_splits)
      have ns: "centris_id l \<notin> seen_in rs" using None by (simp add: last_row_for_None)
      from process_row_effect[OF s1 cr] obtain x where
        x: "extract_row tb r (row_ident r) = Inr x" and
        ls: "listings (db st1) = upsert_listings env ts (row_ident r) x (tick st) (listings (db st))"
        by blast
      have "l \<in> set (filter (\<lambda>l'. centris_id l' = centris_id l) (listings (db st')))" using l by simp
      then have "l \<in> set (filter (\<lambda>l'. centris_id l' = centris_id l) (listings (db st1)))"
        using process_rows_frame[OF s2 ns] by simp
      then have "l \<in> set (upsert_listings env ts (row_ident r) x (tick st) (listings (db st)))"
        using ls by simp
      from upsert_listings_fresh[OF this i[symmetric]] show ?thesis using x i r0 by auto
    qed
  qed
qed

lemma kept_row_refl: "kept_row env seen l l"
  by (simp add: kept_row_def)

lemma kept_row_trans:
  assumes "kept_row env {i} a b" "kept_row env seen b c"
  shows "kept_row env (insert i seen) a c"
  using assms by (auto simp: kept_row_def)

lemma kept_row_saved:
  assumes "centris_id l = i"
  shows "kept_row env {i} l ((ensure_slug env (overwrite l x ts))\<lparr>updated_at := t\<rparr>)"
proof -
  have a: "ensure_slug env l = l \<Longrightarrow> slug (ensure_slug env (overwrite l x ts)) = slug l"
  proof -
    assume e: "ensure_slug env l = l"
    have "ensure_slug env (overwrite l x ts) = overwrite (ensure_slug env l) x ts"
      by (simp add: overwrite_ensure_slug)
    also have "\<dots> = overwrite l x ts" by (simp only: e)
    finally show ?thesis by (simp add: overwrite_def)
  qed
  have b: "first_seen_at (ensure_slug env (overwrite l x ts)) = first_seen_at l"
    by (simp add: ensure_slug_def overwrite_def)
  show ?thesis using assms a b saved_fixpoint(2) by (simp add: kept_row_def)
qed

lemma process_rows_kept:
  "process_rows env tb ts rows st = Inr st' \<Longrightarrow> pk_unique (db st) \<Longrightarrow> seen_in rows \<subseteq> ids_of (db st) \<Longrightarrow>
     list_all2 (kept_row env (seen_in rows)) (listings (db st)) (listings (db st'))"
proof (induction rows arbitrary: st)
  case Nil
  then show ?case by (simp add: list_all2_refl kept_row_refl)
next
  case (Cons r rs)
  then obtain st1 where s1: "process_row env tb ts r st = Inr st1"
    and s2: "process_rows env tb ts rs st1 = Inr st'"
    by (auto simp: bind_exn_Inr)
  show ?case
  proof (cases "counted r")
    case False
    then have e: "st1 = st" using s1 by (simp add: process_row_skip)
    have "seen_in rs \<subseteq> ids_of (db st)" using Cons.prems(3) False by (simp add: seen_in_Cons)
    from Cons.IH[OF s2[unfolded e] Cons.prems(2) this] show ?thesis using False by (simp add: seen_in_Cons)
  next
    case True
    let ?i = "row_ident r"
    from process_row_effect[OF s1 True] obtain x where
      ls: "listings (db st1) = upsert_listings env ts ?i x (tick st) (listings (db st))"
      by blast
    have iin: "?i \<in> centris_id ` set (listings (db st))"
      using Cons.prems(3) True by (auto simp: seen_in_Cons ids_of_def)
    have d: "distinct (map centris_id (listings (db st)))" using Cons.prems(2) by (simp add: pk_unique_def)
    have ls': "listings (db st1) = map (\<lambda>l. if centris_id l = ?i
                     then (ensure_slug env (overwrite l x ts))\<lparr>updated_at := op_clock env (Suc (tick st))\<rparr> else l)
                  (listings (db st))"
      unfolding ls by (rule upsert_listings_unique[OF d iin])
    have step: "list_all2 (kept_row env {?i}) (listings (db st)) (listings (db st1))"
      unfolding ls' list_all2_map2
      by (rule list_all2_refl) (simp add: kept_row_saved kept_row_refl)
    have m: "map centris_id (listings (db st1)) = map centris_id (listings (db st))"
      unfolding ls using iin by (simp add: upsert_listings_map_ids)
    have pk1: "pk_unique (db st1)" using d m by (simp add: pk_unique_def)
    have ids1: "ids_of (db st1) = ids_of (db st)"
      using arg_cong[OF m, of set] by (simp add: ids_of_def)
    have sub: "seen_in rs \<subseteq> ids_of (db st1)" using Cons.prems(3) True ids1 by (auto simp: seen_in_Cons)
    note ih = Cons.IH[OF s2 pk1 sub]
    have "list_all2 (kept_row env (insert ?i (seen_in rs))) (listings (db st)) (listings (db st'))"
      by (rule list_all2_trans[OF _ step ih]) (rule kept_row_trans)
    then show ?thesis using True by (simp add: seen_in_Cons)
  qed
qed


lemma ensure_slug_same_slugify: "slugify env2 = slugify env1 \<Longrightarrow> ensure_slug env2 l = ensure_slug env1 l"
  by (simp add: ensure_slug_def)

lemma list_all2_right_all:
  assumes "list_all2 Q xs ys" "y \<in> set ys"
  shows "\<exists>x\<in>set xs. Q x y"
  using assms by (induction rule: list_all2_induct) auto

lemma first_run_state:
  assumes r1: "import_tables env tb info c0 = (Inr tot, c1)" and pk: "pk_unique c0"
  shows "pk_unique c1"
    and "seen_in (rows_ins tb) \<subseteq> ids_of c1"
    and "\<forall>l\<in>set (listings c1). \<forall>r. last_row_for (centris_id l) (rows_ins tb) = Some r \<longrightarrow>
           (\<exists>x. extract_row tb r (centris_id l) = Inr x \<and> overwrite l x (run_now info) = l \<and> ensure_slug env l = l)"
    and "do_mark_sold info \<longrightarrow> (\<forall>l\<in>set (listings c1). \<not> sold_qs (seen_in (rows_ins tb)) l)"
proof -
  let ?st0 = "\<lparr>db = c0, tick = 0, n_total = 0, added = 0, updated = 0, seen_ids = {}\<rparr>"
  let ?seen = "seen_in (rows_ins tb)"
  let ?mark = "\<lambda>l. if sold_qs ?seen l then l\<lparr>status := STATUS_SOLD, sold_at := Some (run_now info)\<rparr> else l"
  from import_tables_Inr[OF r1] obtain st where
    p: "process_rows env tb (run_now info) (rows_ins tb) ?st0 = Inr st" and
    l0: "listings c1 = (if do_mark_sold info then listings (mark_sold (seen_ids st) (run_now info) (db st))
                    else listings (db st))"
    by blast
  have seen: "seen_ids st = ?seen" using process_rows_counts[OF p] by simp
  have l: "listings c1 = (if do_mark_sold info then map ?mark (listings (db st)) else listings (db st))"
    using l0 seen by (simp add: mark_sold_def)
  have m: "map centris_id (listings c1) = map centris_id (listings (db st))"
    unfolding l by (simp add: o_def)
  note ids = process_rows_ids[OF p]
  show "pk_unique c1" using ids pk by (simp add: pk_unique_def m)
  show "?seen \<subseteq> ids_of c1" using arg_cong[OF m, of set] ids by (auto simp: ids_of_def)
  have keep: "\<And>l'. l' \<in> set (listings c1) \<Longrightarrow> centris_id l' \<in> ?seen \<Longrightarrow> l' \<in> set (listings (db st))"
  proof -
    fix l' assume a: "l' \<in> set (listings c1)" and b: "centris_id l' \<in> ?seen"
    show "l' \<in> set (listings (db st))"
    proof (cases "do_mark_sold info")
      case False
      then show ?thesis using a l by simp
    next
      case True
      then have "l' \<in> ?mark ` set (listings (db st))" using a l by simp
      then obtain l0 where lin: "l0 \<in> set (listings (db st))" and e: "l' = ?mark l0"
        by blast
      have "centris_id l0 \<in> ?seen" using b e by (simp split: if_splits)
      then have "\<not> sold_qs ?seen l0" by (simp add: sold_qs_def)
      then show ?thesis using e lin by simp
    qed
  qed
  show "\<forall>l\<in>set (listings c1). \<forall>r. last_row_for (centris_id l) (rows_ins tb) = Some r \<longrightarrow>
           (\<exists>x. extract_row tb r (centris_id l) = Inr x \<and> overwrite l x (run_now info) = l \<and> ensure_slug env l = l)"
  proof (intro ballI allI impI)
    fix l' r assume a: "l' \<in> set (listings c1)" and b: "last_row_for (centris_id l') (rows_ins tb) = Some r"
    have "centris_id l' \<in> ?seen" using b last_row_for_None[of "centris_id l'" "rows_ins tb"] by auto
    then have "l' \<in> set (listings (db st))" using keep a by blast
    then show "\<exists>x. extract_row tb r (centris_id l') = Inr x \<and> overwrite l' x (run_now info) = l' \<and> ensure_slug env l' = l'"
      using process_rows_last[OF p] b by blast
  qed
  show "do_mark_sold info \<longrightarrow> (\<forall>l\<in>set (listings c1). \<not> sold_qs ?seen l)"
  proof (intro impI ballI)
    fix l' assume f: "do_mark_sold info" and a: "l' \<in> set (listings c1)"
    then have "l' \<in> ?mark ` set (listings (db st))" using l by simp
    then obtain l0 where e: "l' = ?mark l0" by blast
    show "\<not> sold_qs ?seen l'"
      unfolding e using status_distinct by (auto simp: sold_qs_def)
  qed
qed

lemma second_loop_state:
  assumes r1: "import_tables env1 tb info1 c0 = (Inr tot1, c1)" and pk: "pk_unique c0"
    and p2: "process_rows env2 tb ts2 (rows_ins tb)
               \<lparr>db = c1, tick = 0, n_total = 0, added = 0, updated = 0, seen_ids = {}\<rparr> = Inr s2"
    and sl: "slugify env2 = slugify env1"
  shows "list_all2 (\<lambda>l l'. same_entry l l' \<and> (sold_qs (seen_in (rows_ins tb)) l' \<longrightarrow> sold_qs (seen_in (rows_ins tb)) l))
           (listings c1) (listings (db s2))"
proof -
  let ?seen = "seen_in (rows_ins tb)"
  note f = first_run_state[OF r1 pk]
  have k: "list_all2 (kept_row env2 ?seen) (listings c1) (listings (db s2))"
    using process_rows_kept[OF p2] f(1,2) by simp
  show ?thesis
  proof (rule list.rel_mono_strong[OF k])
    fix l1 l2 assume a: "l1 \<in> set (listings c1)" and b: "l2 \<in> set (listings (db s2))"
      and kr: "kept_row env2 ?seen l1 l2"
    have cid: "centris_id l2 = centris_id l1" and fs: "first_seen_at l2 = first_seen_at l1"
      using kr by (simp_all add: kept_row_def)
    show "same_entry l1 l2 \<and> (sold_qs ?seen l2 \<longrightarrow> sold_qs ?seen l1)"
    proof (cases "centris_id l1 \<in> ?seen")
      case False
      then have "l2 = l1" using kr by (simp add: kept_row_def)
      then show ?thesis by simp
    next
      case True
      then obtain r where r: "last_row_for (centris_id l1) (rows_ins tb) = Some r"
        using last_row_for_None[of "centris_id l1" "rows_ins tb"] by (cases "last_row_for (centris_id l1) (rows_ins tb)") auto
      from f(3) a r obtain x where x: "extract_row tb r (centris_id l1) = Inr x"
        and o1: "overwrite l1 x (run_now info1) = l1" and e1: "ensure_slug env1 l1 = l1"
        by blast
      from process_rows_last[OF p2] b r cid obtain x' where x': "extract_row tb r (centris_id l1) = Inr x'"
        and o2: "overwrite l2 x' ts2 = l2"
        by (metis)
      have xx: "x' = x" using x x' by simp
      have "ensure_slug env2 l1 = l1" using e1 ensure_slug_same_slugify[OF sl] by simp
      then have sg: "slug l2 = slug l1" using kr by (simp add: kept_row_def)
      have "same_entry l1 l2" using same_entry_fresh[OF o1 o2[unfolded xx] cid sg fs] .
      moreover have "\<not> sold_qs ?seen l2" using True cid by (simp add: sold_qs_def)
      ultimately show ?thesis by simp
    qed
  qed
qed

text \<open>
  C7. Let a bundle be imported into a catalog whose primary key is unique, and then
  imported again into the catalog the first run left, with the same \<^verbatim>\<open>slugify\<close> and
  with the retirement step not enabled in the second run alone. If both runs complete,
  the second adds nothing and marks nothing sold, counts every row as updated and sees
  as many rows as the first; every entry of the catalog is, after the second run, what
  it was after the first in every column but \<open>last_seen_at\<close> and \<open>updated_at\<close>; and
  every listing has the same stored photos.
\<close>

theorem second_run_changes_nothing:
  assumes r1: "import_tables env1 tb info1 c0 = (Inr tot1, c1)"
      and r2: "import_tables env2 tb info2 c1 = (Inr tot2, c2)"
      and pk: "pk_unique c0"
      and sl: "slugify env2 = slugify env1"
      and fl: "do_mark_sold info2 \<longrightarrow> do_mark_sold info1"
  shows "t_added tot2 = 0 \<and> t_sold tot2 = 0 \<and> t_updated tot2 = t_total tot2 \<and> t_total tot2 = t_total tot1
       \<and> list_all2 same_entry (listings c1) (listings c2)
       \<and> (\<forall>i. photos_of c2 i = photos_of c1 i)"
proof -
  let ?seen = "seen_in (rows_ins tb)"
  let ?st1 = "\<lparr>db = c0, tick = 0, n_total = 0, added = 0, updated = 0, seen_ids = {}\<rparr>"
  let ?st2 = "\<lparr>db = c1, tick = 0, n_total = 0, added = 0, updated = 0, seen_ids = {}\<rparr>"
  let ?mark = "\<lambda>l. if sold_qs ?seen l then l\<lparr>status := STATUS_SOLD, sold_at := Some (run_now info2)\<rparr> else l"
  from import_tables_Inr[OF r1] obtain s1 where
    p1: "process_rows env1 tb (run_now info1) (rows_ins tb) ?st1 = Inr s1" and
    ph1: "photos c1 = photos (db s1)" and
    t1: "t_total tot1 = n_total s1"
    by blast
  from import_tables_Inr[OF r2] obtain s2 where
    p2: "process_rows env2 tb (run_now info2) (rows_ins tb) ?st2 = Inr s2" and
    l2: "listings c2 = (if do_mark_sold info2 then listings (mark_sold (seen_ids s2) (run_now info2) (db s2))
                    else listings (db s2))" and
    ph2: "photos c2 = photos (db s2)" and
    t2: "t_total tot2 = n_total s2" "t_added tot2 = added s2" "t_updated tot2 = updated s2"
        "t_sold tot2 = (if do_mark_sold info2 then length (filter (sold_qs (seen_ids s2)) (listings (db s2))) else 0)"
    by blast
  note f = first_run_state[OF r1 pk]
  note c1 = process_rows_counts[OF p1]
  note c2 = process_rows_counts[OF p2]
  have seen2: "seen_ids s2 = ?seen" using c2 by simp
  note st = second_loop_state[OF r1 pk p2 sl]
  have nosold: "do_mark_sold info2 \<Longrightarrow> \<forall>l\<in>set (listings (db s2)). \<not> sold_qs ?seen l"
  proof
    fix l assume m: "do_mark_sold info2" and a: "l \<in> set (listings (db s2))"
    from list_all2_right_all[OF st a] obtain l1 where "l1 \<in> set (listings c1)"
      and "sold_qs ?seen l \<longrightarrow> sold_qs ?seen l1" by blast
    then show "\<not> sold_qs ?seen l" using f(4) fl m by blast
  qed
  have A: "t_added tot2 = 0"
  proof -
    have "?seen - ids_of c1 = {}" using f(2) by blast
    then show ?thesis using process_rows_ids[OF p2] t2(2) by simp
  qed
  have S: "t_sold tot2 = 0"
  proof (cases "do_mark_sold info2")
    case True
    then have "filter (sold_qs ?seen) (listings (db s2)) = []"
      using nosold by (simp add: filter_empty_conv)
    then show ?thesis using t2(4) seen2 by simp
  next
    case False
    then show ?thesis using t2(4) by simp
  qed
  have U: "t_updated tot2 = t_total tot2" using c2 t2 A by simp
  have T: "t_total tot2 = t_total tot1" using c1 c2 t1 t2(1) by simp
  have L: "listings c2 = listings (db s2)"
  proof (cases "do_mark_sold info2")
    case True
    have "map ?mark (listings (db s2)) = listings (db s2)"
      by (rule map_idI) (use nosold[OF True] in simp)
    then show ?thesis using l2 True seen2 by (simp add: mark_sold_def)
  next
    case False
    then show ?thesis using l2 by simp
  qed
  have E: "list_all2 same_entry (listings c1) (listings c2)"
    unfolding L by (rule list_all2_mono[OF st]) simp
  have P: "\<forall>i. photos_of c2 i = photos_of c1 i"
  proof
    fix i
    have a: "photos_of c1 i = photos_of (db s1) i" "photos_of c2 i = photos_of (db s2) i"
      by (simp_all add: photos_of_def ph1 ph2)
    show "photos_of c2 i = photos_of c1 i"
      unfolding a using process_rows_photos[OF p1, of i] process_rows_photos[OF p2, of i] a(1)
      by (simp add: photos_of_def)
  qed
  show ?thesis using A S U T E P by blast
qed

theorem second_run_changes_nothing_witness:
  "import_tables store_ok demo_bundle info_first catalog_before
      = (Inr \<lparr>t_total = 3, t_added = 1, t_updated = 2, t_sold = 1\<rparr>, catalog_after_first)
   \<and> import_tables store_ok demo_bundle info_second catalog_after_first
      = (Inr \<lparr>t_total = 3, t_added = 0, t_updated = 3, t_sold = 0\<rparr>, catalog_after_second)
   \<and> pk_unique catalog_before
   \<and> list_all2 same_entry (listings catalog_after_first) (listings catalog_after_second)
   \<and> photos_of catalog_after_second ''1001'' = photos_of catalog_after_first ''1001''
   \<and> photos_of catalog_after_second ''1003'' = photos_of catalog_after_first ''1003''
   \<and> map (\<lambda>l. (centris_id l, status l, sold_at l, last_seen_at l)) (listings catalog_after_second)
        = [(''1002'', ''SOLD'', Some 1000, Some 20), (''1003'', ''ACTIVE'', None, Some 2000),
           (''1001'', ''ACTIVE'', None, Some 2000)]"
proof -
  have f1: "fst (import_tables store_ok demo_bundle info_first catalog_before)
      = Inr \<lparr>t_total = 3, t_added = 1, t_updated = 2, t_sold = 1\<rparr>"
    by code_simp
  have r1: "import_tables store_ok demo_bundle info_first catalog_before
      = (Inr \<lparr>t_total = 3, t_added = 1, t_updated = 2, t_sold = 1\<rparr>, catalog_after_first)"
    unfolding catalog_after_first_def using f1 by (metis prod.collapse)
  have f2: "fst (import_tables store_ok demo_bundle info_second catalog_after_first)
      = Inr \<lparr>t_total = 3, t_added = 0, t_updated = 3, t_sold = 0\<rparr>"
    by code_simp
  have r2: "import_tables store_ok demo_bundle info_second catalog_after_first
      = (Inr \<lparr>t_total = 3, t_added = 0, t_updated = 3, t_sold = 0\<rparr>, catalog_after_second)"
    unfolding catalog_after_second_def using f2 by (metis prod.collapse)
  have pk: "pk_unique catalog_before" by code_simp
  have fl: "do_mark_sold info_second \<longrightarrow> do_mark_sold info_first" by (simp add: info_first_def)
  have m: "map (\<lambda>l. (centris_id l, status l, sold_at l, last_seen_at l)) (listings catalog_after_second)
        = [(''1002'', ''SOLD'', Some 1000, Some 20), (''1003'', ''ACTIVE'', None, Some 2000),
           (''1001'', ''ACTIVE'', None, Some 2000)]"
    by code_simp
  note t = second_run_changes_nothing[OF r1 r2 pk refl fl]
  show ?thesis using r1 r2 pk m t by simp
qed

end
